theory Spec2Isabelle
  imports Main
begin

section \<open>PageCollector.ts: the windowed per-page collector\<close>

text \<open>
  A shallow embedding of \<^verbatim>\<open>src/PageCollector.ts\<close>. Pages, frames and collected items are
  JavaScript objects; only their identity matters to the collector, so each is modelled by
  an opaque reference. The mutable parts of a collector instance (its WeakMaps, the
  counter captured by each page's id generator, the hidden \<^verbatim>\<open>stableIdSymbol\<close> property of
  every item) form an explicit state record that every operation takes and returns.
\<close>

subsection \<open>Data model\<close>

type_synonym page = nat
type_synonym frame = nat
type_synonym item = nat

text \<open>An issue of the DevTools front end: only its primary key is read here.\<close>

record issue =
  primaryKey :: string
  details :: string

text \<open>
  \<^verbatim>\<open>new Error(message)\<close> as thrown by \<^verbatim>\<open>getById\<close>, and the \<^verbatim>\<open>TypeError\<close> the
  runtime raises on a property access on \<^verbatim>\<open>undefined\<close>.
\<close>

datatype error = Error string | TypeError

text \<open>The class of the instance (\<^verbatim>\<open>this instanceof NetworkCollector\<close>).\<close>

datatype collector_class = PageCollector | NetworkCollector

text \<open>
  What the collector takes from outside this file. From Puppeteer: \<^verbatim>\<open>page.mainFrame()\<close>,
  \<^verbatim>\<open>request.frame()\<close> and \<^verbatim>\<open>request.isNavigationRequest()\<close>. From the issue aggregator
  and the listeners given to the constructor: \<open>issueListeners page dispatched iss\<close> are
  the items that reach the page's collector while \<open>iss\<close> is dispatched to the page's
  FakeIssuesManager, after the issues \<open>dispatched\<close>. The dispatch makes the IssueAggregator
  fire \<^verbatim>\<open>AGGREGATED_ISSUE_UPDATED\<close>, whose listener in \<^verbatim>\<open>subscribeForIssues\<close> emits
  \<^verbatim>\<open>'issue'\<close> on the page; the page's \<^verbatim>\<open>'issue'\<close> listeners, built from the collector by
  the constructor's argument, then call the collector. The list is empty when nothing is
  emitted or no listener collects.
\<close>

record env =
  mainFrame :: "page \<Rightarrow> frame"
  frame :: "item \<Rightarrow> frame"
  isNavigationRequest :: "item \<Rightarrow> bool"
  issueListeners :: "page \<Rightarrow> issue list \<Rightarrow> issue \<Rightarrow> item list"

text \<open>
  \<^item> \<open>storage\<close>: the WeakMap from a page to its array of arrays, index 0 the current
    navigation;
  \<^item> \<open>idGenerators\<close>: the variable \<^verbatim>\<open>i\<close> captured by the id generator that
    \<^verbatim>\<open>#initializePage\<close> created for the page (read only through that page's collector
    closure, so its value for a page never initialised is immaterial);
  \<^item> \<open>stableIdSymbol\<close>: the property \<^verbatim>\<open>[stableIdSymbol]\<close> of each item, \<open>None\<close> when
    the item does not have it;
  \<^item> \<open>seenIssueKeys\<close>: the WeakMap from a page to its set of primary keys;
  \<^item> \<open>mockIssuesManagers\<close>: the WeakMap from a page to its FakeIssuesManager, modelled by
    the list of issues dispatched to it with \<^verbatim>\<open>ISSUE_ADDED\<close>, oldest first.

  The listeners attached to a page and the issue aggregators are not part of the state:
  what they do to the collector during a dispatch comes from \<open>issueListeners\<close>.
\<close>

record state =
  storage :: "page \<rightharpoonup> item list list"
  idGenerators :: "page \<Rightarrow> int"
  stableIdSymbol :: "item \<rightharpoonup> int"
  seenIssueKeys :: "page \<rightharpoonup> string set"
  mockIssuesManagers :: "page \<rightharpoonup> issue list"

text \<open>
  The outcome of a handler that may throw: \<open>Inr s\<close> when it returns leaving the state
  \<open>s\<close>, \<open>Inl (e, s)\<close> when it throws \<open>e\<close> after having left the state \<open>s\<close>.
\<close>

type_synonym outcome = "(error \<times> state) + state"

subsection \<open>The id generator\<close>

definition MAX_SAFE_INTEGER :: int where
  "MAX_SAFE_INTEGER = 9007199254740991"

text \<open>\<^verbatim>\<open>let i = 1\<close>: the captured variable of a new generator.\<close>

definition createIdGenerator :: int where
  "createIdGenerator = 1"

text \<open>
  One call of the closure on the captured value \<open>i\<close>: the emitted id and the new value
  of \<open>i\<close> (\<^verbatim>\<open>if (i === Number.MAX_SAFE_INTEGER) i = 0; return i++\<close>).
\<close>

definition idGenerator :: "int \<Rightarrow> int \<times> int" where
  "idGenerator i = (let i1 = (if i = MAX_SAFE_INTEGER then 0 else i) in (i1, i1 + 1))"

text \<open>The ids emitted by \<open>n\<close> successive calls of a generator whose variable holds \<open>i\<close>.\<close>

fun calls :: "nat \<Rightarrow> int \<Rightarrow> int list" where
  "calls 0 i = []"
| "calls (Suc n) i = (case idGenerator i of (emitted, i') \<Rightarrow> emitted # calls n i')"

subsection \<open>Registration and teardown\<close>

definition maxNavigationSaved :: nat where
  "maxNavigationSaved = 3"

definition new_collector :: state where
  "new_collector =
     \<lparr>storage = Map.empty, idGenerators = (\<lambda>_. createIdGenerator),
      stableIdSymbol = Map.empty, seenIssueKeys = Map.empty,
      mockIssuesManagers = Map.empty\<rparr>"

definition subscribeForIssues :: "collector_class \<Rightarrow> page \<Rightarrow> state \<Rightarrow> state" where
  "subscribeForIssues cls page s =
     (if cls = NetworkCollector then s
      else
        let s1 = (if seenIssueKeys s page = None
                  then s\<lparr>seenIssueKeys := (seenIssueKeys s)(page \<mapsto> {})\<rparr>
                  else s)
        in s1\<lparr>mockIssuesManagers := (mockIssuesManagers s1)(page \<mapsto> [])\<rparr>)"

definition initializePage :: "collector_class \<Rightarrow> page \<Rightarrow> state \<Rightarrow> state" where
  "initializePage cls page s =
     subscribeForIssues cls page
       (s\<lparr>idGenerators := (idGenerators s)(page := createIdGenerator),
          storage := (storage s)(page \<mapsto> [[]])\<rparr>)"

definition addPage :: "collector_class \<Rightarrow> page \<Rightarrow> state \<Rightarrow> state" where
  "addPage cls page s =
     (if storage s page \<noteq> None then s else initializePage cls page s)"

definition cleanupPageDestroyed :: "page \<Rightarrow> state \<Rightarrow> state" where
  "cleanupPageDestroyed page s =
     s\<lparr>storage := (storage s)(page := None),
       seenIssueKeys := (seenIssueKeys s)(page := None),
       mockIssuesManagers := (mockIssuesManagers s)(page := None)\<rparr>"

subsection \<open>The collector closure\<close>

text \<open>\<^verbatim>\<open>!withId[stableIdSymbol]\<close>: true when the property is missing or is 0.\<close>

definition falsy :: "int option \<Rightarrow> bool" where
  "falsy v = (case v of None \<Rightarrow> True | Some n \<Rightarrow> n = 0)"

text \<open>
  The closure \<^verbatim>\<open>collector\<close> that \<^verbatim>\<open>#initializePage\<close> builds for \<open>page\<close>. When the page
  is no longer in \<open>storage\<close> the item is pushed onto a temporary \<^verbatim>\<open>[[]]\<close> that is then
  dropped; \<^verbatim>\<open>navigations[0]\<close> of an empty array is \<^verbatim>\<open>undefined\<close>, whose \<^verbatim>\<open>includes\<close>
  throws.
\<close>

definition collector :: "page \<Rightarrow> item \<Rightarrow> state \<Rightarrow> outcome" where
  "collector page v s =
     (let s1 = (if falsy (stableIdSymbol s v)
                then (case idGenerator (idGenerators s page) of
                        (n, i') \<Rightarrow>
                          s\<lparr>stableIdSymbol := (stableIdSymbol s)(v \<mapsto> n),
                            idGenerators := (idGenerators s)(page := i')\<rparr>)
                else s);
          navigations = (case storage s1 page of None \<Rightarrow> [[]] | Some ns \<Rightarrow> ns)
      in case navigations of
           [] \<Rightarrow> Inl (TypeError, s1)
         | currentNavigation # older \<Rightarrow>
             if v \<in> set currentNavigation then Inr s1
             else (case storage s1 page of
                     None \<Rightarrow> Inr s1
                   | Some _ \<Rightarrow>
                       Inr (s1\<lparr>storage :=
                                 (storage s1)(page \<mapsto> (currentNavigation @ [v]) # older)\<rparr>)))"

subsection \<open>Rotation\<close>

text \<open>
  \<^verbatim>\<open>PageCollector.splitAfterNavigation\<close>: \<^verbatim>\<open>unshift([])\<close>, then
  \<^verbatim>\<open>splice(this.#maxNavigationSaved)\<close>, which removes everything from that index on.
\<close>

definition splitAfterNavigation :: "page \<Rightarrow> state \<Rightarrow> state" where
  "splitAfterNavigation page s =
     (case storage s page of
        None \<Rightarrow> s
      | Some navigations \<Rightarrow>
          s\<lparr>storage := (storage s)(page \<mapsto> take maxNavigationSaved ([] # navigations))\<rparr>)"

text \<open>\<^verbatim>\<open>Array.prototype.findLastIndex\<close>: scans from the last index down, -1 when none.\<close>

fun findLastIndex_from :: "('a \<Rightarrow> bool) \<Rightarrow> 'a list \<Rightarrow> nat \<Rightarrow> int" where
  "findLastIndex_from P xs 0 = - 1"
| "findLastIndex_from P xs (Suc k) =
     (if P (xs ! k) then int k else findLastIndex_from P xs k)"

definition findLastIndex :: "('a \<Rightarrow> bool) \<Rightarrow> 'a list \<Rightarrow> int" where
  "findLastIndex P xs = findLastIndex_from P xs (length xs)"

text \<open>
  The predicate of the override:
  \<^verbatim>\<open>request.frame() === page.mainFrame() ? request.isNavigationRequest() : false\<close>.
\<close>

definition isMainFrameNavigation :: "env \<Rightarrow> page \<Rightarrow> item \<Rightarrow> bool" where
  "isMainFrameNavigation e page request =
     (if frame e request = mainFrame e page then isNavigationRequest e request else False)"

text \<open>
  \<^verbatim>\<open>NetworkCollector.splitAfterNavigation\<close>. \<^verbatim>\<open>this.storage.get(page) ?? []\<close> is never
  falsy, so the guard after it never returns; on an empty array \<^verbatim>\<open>navigations[0]\<close> is
  \<^verbatim>\<open>undefined\<close> and \<^verbatim>\<open>requests.findLastIndex\<close> throws. \<^verbatim>\<open>requests.splice(k)\<close> leaves
  the first \<open>k\<close> requests in place and returns the others. The override does not call
  \<^verbatim>\<open>splice\<close> on \<^verbatim>\<open>navigations\<close>.
\<close>

definition NetworkCollector_splitAfterNavigation :: "env \<Rightarrow> page \<Rightarrow> state \<Rightarrow> outcome" where
  "NetworkCollector_splitAfterNavigation e page s =
     (let navigations = (case storage s page of None \<Rightarrow> [] | Some ns \<Rightarrow> ns)
      in case navigations of
           [] \<Rightarrow> Inl (TypeError, s)
         | requests # older \<Rightarrow>
             let lastRequestIdx = findLastIndex (isMainFrameNavigation e page) requests
             in if lastRequestIdx \<noteq> - 1
                then
                  let fromCurrentNavigation = drop (nat lastRequestIdx) requests
                  in Inr (s\<lparr>storage :=
                            (storage s)(page \<mapsto>
                               fromCurrentNavigation # take (nat lastRequestIdx) requests # older)\<rparr>)
                else Inr (s\<lparr>storage := (storage s)(page \<mapsto> [] # requests # older)\<rparr>))"

text \<open>\<^verbatim>\<open>this.splitAfterNavigation(page)\<close>, dispatched on the class of the instance.\<close>

definition this_splitAfterNavigation ::
  "collector_class \<Rightarrow> env \<Rightarrow> page \<Rightarrow> state \<Rightarrow> outcome" where
  "this_splitAfterNavigation cls e page s =
     (case cls of
        PageCollector \<Rightarrow> Inr (splitAfterNavigation page s)
      | NetworkCollector \<Rightarrow> NetworkCollector_splitAfterNavigation e page s)"

text \<open>The \<^verbatim>\<open>framenavigated\<close> listener installed by \<^verbatim>\<open>#initializePage\<close>.\<close>

definition framenavigated ::
  "collector_class \<Rightarrow> env \<Rightarrow> page \<Rightarrow> frame \<Rightarrow> state \<Rightarrow> outcome" where
  "framenavigated cls e page fr s =
     (if fr \<noteq> mainFrame e page then Inr s else this_splitAfterNavigation cls e page s)"

subsection \<open>Queries\<close>

text \<open>\<^verbatim>\<open>xs[i]\<close>: \<open>None\<close> stands for \<^verbatim>\<open>undefined\<close>.\<close>

definition at_index :: "'a list \<Rightarrow> nat \<Rightarrow> 'a option" where
  "at_index xs i = (if i < length xs then Some (xs ! i) else None)"

text \<open>
  The loop of \<^verbatim>\<open>getData\<close>, \<open>index\<close> running down to 0; an array, even an empty one, is
  truthy.
\<close>

fun getData_loop :: "item list list \<Rightarrow> nat \<Rightarrow> item list \<Rightarrow> item list" where
  "getData_loop navigations 0 data =
     (case at_index navigations 0 of None \<Rightarrow> data | Some w \<Rightarrow> data @ w)"
| "getData_loop navigations (Suc index) data =
     getData_loop navigations index
       (case at_index navigations (Suc index) of None \<Rightarrow> data | Some w \<Rightarrow> data @ w)"

text \<open>\<open>None\<close> is the \<^verbatim>\<open>undefined\<close> that \<^verbatim>\<open>navigations[0]\<close> yields on an empty array.\<close>

definition getData :: "state \<Rightarrow> page \<Rightarrow> bool \<Rightarrow> item list option" where
  "getData s page includePreservedData =
     (case storage s page of
        None \<Rightarrow> Some []
      | Some navigations \<Rightarrow>
          if \<not> includePreservedData then at_index navigations 0
          else Some (getData_loop navigations maxNavigationSaved []))"

definition getIdForResource :: "state \<Rightarrow> item \<Rightarrow> int" where
  "getIdForResource s resource =
     (case stableIdSymbol s resource of None \<Rightarrow> - 1 | Some n \<Rightarrow> n)"

fun find_navigations :: "(item \<Rightarrow> bool) \<Rightarrow> item list list \<Rightarrow> item option" where
  "find_navigations flt [] = None"
| "find_navigations flt (navigation # rest) =
     (case List.find flt navigation of
        Some found \<Rightarrow> Some found
      | None \<Rightarrow> find_navigations flt rest)"

definition find_item :: "state \<Rightarrow> page \<Rightarrow> (item \<Rightarrow> bool) \<Rightarrow> item option" where
  "find_item s page flt =
     (case storage s page of
        None \<Rightarrow> None
      | Some navigations \<Rightarrow> find_navigations flt navigations)"

definition getById :: "state \<Rightarrow> page \<Rightarrow> int \<Rightarrow> error + item" where
  "getById s page stableId =
     (case storage s page of
        None \<Rightarrow> Inl (Error ''No requests found for selected page'')
      | Some _ \<Rightarrow>
          (case find_item s page (\<lambda>x. stableIdSymbol s x = Some stableId) of
             Some found \<Rightarrow> Inr found
           | None \<Rightarrow> Inl (Error ''Request not found for selected page'')))"

text \<open>The two errors of \<^verbatim>\<open>getById\<close> are what the specification calls NotFound.\<close>

definition NotFound :: "error \<Rightarrow> bool" where
  "NotFound err =
     (err = Error ''No requests found for selected page''
      \<or> err = Error ''Request not found for selected page'')"

subsection \<open>Raw issues\<close>

text \<open>
  The collector called on each of the items in turn, as the page's \<^verbatim>\<open>'issue'\<close> listeners
  do during a dispatch; a call that throws ends the dispatch.
\<close>

fun collect_all :: "page \<Rightarrow> item list \<Rightarrow> state \<Rightarrow> outcome" where
  "collect_all page [] s = Inr s"
| "collect_all page (v # vs) s =
     (case collector page v s of
        Inl thrown \<Rightarrow> Inl thrown
      | Inr s' \<Rightarrow> collect_all page vs s')"

text \<open>
  The \<^verbatim>\<open>Audits.issueAdded\<close> handler of \<^verbatim>\<open>subscribeForIssues\<close>. Its argument is the
  first issue that \<^verbatim>\<open>createIssuesFromProtocolIssue\<close> builds, \<open>None\<close> when there is none.
  \<^verbatim>\<open>this.#seenIssueKeys.get(page)!\<close> is \<^verbatim>\<open>undefined\<close> once the page was cleaned up, and
  \<^verbatim>\<open>seenKeys.has\<close> then throws. \<^verbatim>\<open>mockManager.dispatchEventToListeners\<close> records the
  issue with the manager and runs, inside the handler, whatever the aggregator's
  re-emission makes the page's \<^verbatim>\<open>'issue'\<close> listeners collect.
\<close>

definition issueAdded :: "env \<Rightarrow> page \<Rightarrow> issue option \<Rightarrow> state \<Rightarrow> outcome" where
  "issueAdded e page parsed s =
     (case parsed of
        None \<Rightarrow> Inr s
      | Some iss \<Rightarrow>
          (case seenIssueKeys s page of
             None \<Rightarrow> Inl (TypeError, s)
           | Some seenKeys \<Rightarrow>
               if primaryKey iss \<in> seenKeys then Inr s
               else
                 let s1 = s\<lparr>seenIssueKeys :=
                              (seenIssueKeys s)(page \<mapsto> insert (primaryKey iss) seenKeys)\<rparr>
                 in (case mockIssuesManagers s1 page of
                       None \<Rightarrow> Inr s1
                     | Some dispatched \<Rightarrow>
                         collect_all page (issueListeners e page dispatched iss)
                           (s1\<lparr>mockIssuesManagers :=
                                 (mockIssuesManagers s1)(page \<mapsto> dispatched @ [iss])\<rparr>))))"

subsection \<open>Sequences of events on one page\<close>

text \<open>
  The events a page delivers to its listeners, in order: a collected item, a main-frame
  navigation, a raw issue. A run stops at the first handler that throws.
\<close>

datatype event = Collect item | Navigate | Issue "issue option"

text \<open>
  A NetworkCollector returns from \<^verbatim>\<open>subscribeForIssues\<close> before it opens a session, so
  no raw issue reaches it.
\<close>

definition handle_event :: "collector_class \<Rightarrow> env \<Rightarrow> page \<Rightarrow> event \<Rightarrow> state \<Rightarrow> outcome" where
  "handle_event cls e page ev s =
     (case ev of
        Collect v \<Rightarrow> collector page v s
      | Navigate \<Rightarrow> this_splitAfterNavigation cls e page s
      | Issue parsed \<Rightarrow>
          (case cls of
             PageCollector \<Rightarrow> issueAdded e page parsed s
           | NetworkCollector \<Rightarrow> Inr s))"

fun run :: "collector_class \<Rightarrow> env \<Rightarrow> page \<Rightarrow> event list \<Rightarrow> state \<Rightarrow> outcome" where
  "run cls e page [] s = Inr s"
| "run cls e page (ev # evs) s =
     (case handle_event cls e page ev s of
        Inl thrown \<Rightarrow> Inl thrown
      | Inr s' \<Rightarrow> run cls e page evs s')"

text \<open>The items that the \<^verbatim>\<open>Collect\<close> events of a run hand to the collector, in order.\<close>

fun collected :: "event list \<Rightarrow> item list" where
  "collected [] = []"
| "collected (Collect v # evs) = v # collected evs"
| "collected (Navigate # evs) = collected evs"
| "collected (Issue parsed # evs) = collected evs"

text \<open>The number of navigations of a run.\<close>

fun rotations :: "event list \<Rightarrow> nat" where
  "rotations [] = 0"
| "rotations (Navigate # evs) = Suc (rotations evs)"
| "rotations (Collect v # evs) = rotations evs"
| "rotations (Issue parsed # evs) = rotations evs"

text \<open>The events that the page's own listeners handle: collected items and navigations.\<close>

fun page_event :: "event \<Rightarrow> bool" where
  "page_event (Collect v) = True"
| "page_event Navigate = True"
| "page_event (Issue parsed) = False"

text \<open>
  A page is registered when \<open>storage\<close> holds a list of windows for it. The list is never
  empty in a state the code builds: it starts as \<^verbatim>\<open>[[]]\<close> and every rotation adds a window.
\<close>

definition registered :: "state \<Rightarrow> page \<Rightarrow> bool" where
  "registered s page = (case storage s page of None \<Rightarrow> False | Some ns \<Rightarrow> ns \<noteq> [])"

text \<open>
  A sample environment: every page has main frame 0; request 4 belongs to frame 1, every
  other request to frame 0; requests 1, 3 and 4 are navigation requests; every dispatched
  issue makes the page's \<^verbatim>\<open>'issue'\<close> listener collect the aggregated issue 100.
\<close>

definition requests_env :: env where
  "requests_env =
     \<lparr>mainFrame = (\<lambda>p. 0), frame = (\<lambda>r. if r = 4 then 1 else 0),
      isNavigationRequest = (\<lambda>r. r = 1 \<or> r = 3 \<or> r = 4),
      issueListeners = (\<lambda>p dispatched iss. [100])\<rparr>"

section \<open>Auxiliary facts\<close>

subsection \<open>The id generator\<close>

lemma idGenerator_mod:
  "0 \<le> i \<Longrightarrow> i \<le> MAX_SAFE_INTEGER \<Longrightarrow>
   idGenerator i = (i mod MAX_SAFE_INTEGER, i mod MAX_SAFE_INTEGER + 1)"
  by (simp add: idGenerator_def MAX_SAFE_INTEGER_def Let_def)

lemma idGenerator_below_max:
  "i \<noteq> MAX_SAFE_INTEGER \<Longrightarrow> idGenerator i = (i, i + 1)"
  by (simp add: idGenerator_def)

lemma calls_closed_form:
  "0 \<le> i \<Longrightarrow> i \<le> MAX_SAFE_INTEGER \<Longrightarrow>
   calls n i = map (\<lambda>k. (i + int k) mod MAX_SAFE_INTEGER) [0..<n]"
proof (induction n arbitrary: i)
  case 0
  show ?case by simp
next
  case (Suc n)
  let ?j = "i mod MAX_SAFE_INTEGER + 1"
  have M: "0 < MAX_SAFE_INTEGER" by (simp add: MAX_SAFE_INTEGER_def)
  have j0: "0 \<le> ?j" using M by (simp add: add_nonneg_nonneg)
  have j1: "?j \<le> MAX_SAFE_INTEGER"
    using pos_mod_bound [OF M, of i] by linarith
  have step: "calls (Suc n) i = i mod MAX_SAFE_INTEGER # calls n ?j"
    using Suc.prems by (simp add: idGenerator_mod)
  have "calls n ?j = map (\<lambda>k. (?j + int k) mod MAX_SAFE_INTEGER) [0..<n]"
    by (rule Suc.IH [OF j0 j1])
  also have "\<dots> = map (\<lambda>k. (i + int (Suc k)) mod MAX_SAFE_INTEGER) [0..<n]"
  proof (rule map_cong [OF refl])
    fix k
    have "(i mod MAX_SAFE_INTEGER + (1 + int k)) mod MAX_SAFE_INTEGER
          = (i + (1 + int k)) mod MAX_SAFE_INTEGER"
      by (rule mod_add_left_eq)
    then show "(?j + int k) mod MAX_SAFE_INTEGER = (i + int (Suc k)) mod MAX_SAFE_INTEGER"
      by (simp only: add.assoc of_nat_Suc)
  qed
  finally have tl: "calls n ?j = map (\<lambda>k. (i + int (Suc k)) mod MAX_SAFE_INTEGER) [0..<n]" .
  have "[0..<Suc n] = 0 # map Suc [0..<n]"
    by (simp add: upt_conv_Cons map_Suc_upt del: upt_Suc)
  then show ?case
    using step tl by (simp add: comp_def del: upt_Suc)
qed

subsection \<open>Array primitives\<close>

lemma findLastIndex_from_none:
  "(\<And>i. i < k \<Longrightarrow> \<not> P (xs ! i)) \<Longrightarrow> findLastIndex_from P xs k = - 1"
  by (induction k) simp_all

lemma findLastIndex_from_last:
  "j < k \<Longrightarrow> P (xs ! j) \<Longrightarrow> (\<And>i. j < i \<Longrightarrow> i < k \<Longrightarrow> \<not> P (xs ! i))
   \<Longrightarrow> findLastIndex_from P xs k = int j"
proof (induction k)
  case 0
  then show ?case by simp
next
  case (Suc k)
  show ?case
  proof (cases "j = k")
    case True
    with Suc.prems show ?thesis by simp
  next
    case False
    with Suc.prems have jk: "j < k" by simp
    have nk: "\<not> P (xs ! k)" using Suc.prems(3) [of k] jk by simp
    have "findLastIndex_from P xs k = int j"
      using Suc.IH [OF jk Suc.prems(2)] Suc.prems(3) by simp
    with nk show ?thesis by simp
  qed
qed

lemma findLastIndex_none:
  "(\<And>x. x \<in> set xs \<Longrightarrow> \<not> P x) \<Longrightarrow> findLastIndex P xs = - 1"
  unfolding findLastIndex_def by (rule findLastIndex_from_none) simp

lemma findLastIndex_last:
  assumes "P c" and "\<And>x. x \<in> set post \<Longrightarrow> \<not> P x"
  shows "findLastIndex P (pre @ c # post) = int (length pre)"
  unfolding findLastIndex_def
proof (rule findLastIndex_from_last)
  show "length pre < length (pre @ c # post)" by simp
  show "P ((pre @ c # post) ! length pre)" using assms(1) by simp
  fix i assume a: "length pre < i" and b: "i < length (pre @ c # post)"
  then have "(pre @ c # post) ! i = post ! (i - Suc (length pre))"
    by (simp add: nth_append nth_Cons')
  moreover have "i - Suc (length pre) < length post" using a b by simp
  ultimately show "\<not> P ((pre @ c # post) ! i)"
    using assms(2) by (metis nth_mem)
qed

lemma find_navigations_none:
  "(\<And>x. x \<in> set (concat navigations) \<Longrightarrow> \<not> flt x) \<Longrightarrow>
   find_navigations flt navigations = None"
proof (induction navigations)
  case Nil
  show ?case by simp
next
  case (Cons w rest)
  have "List.find flt w = None" using Cons.prems by (simp add: find_None_iff)
  moreover have "find_navigations flt rest = None" using Cons.prems by (intro Cons.IH) simp
  ultimately show ?case by simp
qed

subsection \<open>Queries\<close>

text \<open>The loop of \<^verbatim>\<open>getData\<close> appends the windows at indices \<open>n\<close> down to 0.\<close>

lemma getData_loop_eq:
  "getData_loop navigations n data = data @ concat (rev (take (Suc n) navigations))"
proof (induction n arbitrary: data)
  case 0
  show ?case by (cases navigations) (simp_all add: at_index_def)
next
  case (Suc n)
  show ?case
  proof (cases "Suc n < length navigations")
    case True
    then have "take (Suc (Suc n)) navigations = take (Suc n) navigations @ [navigations ! Suc n]"
      by (rule take_Suc_conv_app_nth)
    with True show ?thesis by (simp add: Suc.IH at_index_def)
  next
    case False
    then show ?thesis by (simp add: Suc.IH at_index_def)
  qed
qed

text \<open>
  With history, \<^verbatim>\<open>getData\<close> reads the indices 3, 2, 1, 0: the first four windows, oldest
  first.
\<close>

lemma getData_history:
  "storage s page = Some navigations \<Longrightarrow>
   getData s page True = Some (concat (rev (take 4 navigations)))"
  by (simp add: getData_def getData_loop_eq maxNavigationSaved_def)

text \<open>Where a page holds at most three windows, the history is all of them, oldest first.\<close>

lemma getData_history_bounded:
  "storage s page = Some navigations \<Longrightarrow> length navigations \<le> maxNavigationSaved \<Longrightarrow>
   getData s page True = Some (concat (rev navigations))"
  by (simp add: getData_history maxNavigationSaved_def)

subsection \<open>Registration, the collector and rotation\<close>

lemma initializePage_fields:
  "storage (initializePage cls page s) page = Some [[]]"
  "idGenerators (initializePage cls page s) page = createIdGenerator"
  "stableIdSymbol (initializePage cls page s) = stableIdSymbol s"
  by (simp_all add: initializePage_def subscribeForIssues_def Let_def)

lemma registeredE:
  "registered s page \<Longrightarrow> \<exists>w older. storage s page = Some (w # older)"
  by (auto simp: registered_def neq_Nil_conv split: option.splits)

lemma collector_registered:
  "storage s page = Some (w # older) \<Longrightarrow>
   collector page v s =
     Inr ((if falsy (stableIdSymbol s v)
           then s\<lparr>stableIdSymbol := (stableIdSymbol s)(v \<mapsto> fst (idGenerator (idGenerators s page))),
                  idGenerators := (idGenerators s)(page := snd (idGenerator (idGenerators s page)))\<rparr>
           else s)
          \<lparr>storage := (storage s)(page \<mapsto> (if v \<in> set w then w else w @ [v]) # older)\<rparr>)"
  by (cases "idGenerator (idGenerators s page)") (simp add: collector_def Let_def map_upd_triv)

text \<open>
  Ingesting again an item of the current window whose id is not 0 changes nothing.
\<close>

lemma collector_idempotent:
  "storage s page = Some (w # older) \<Longrightarrow> v \<in> set w \<Longrightarrow> \<not> falsy (stableIdSymbol s v) \<Longrightarrow>
   collector page v s = Inr s"
  by (simp add: collector_registered map_upd_triv)

lemma collector_fresh:
  assumes "registered s page" and "stableIdSymbol s v = None"
    and "idGenerators s page \<noteq> MAX_SAFE_INTEGER"
  shows "\<exists>s'. collector page v s = Inr s' \<and> registered s' page
           \<and> stableIdSymbol s' = (stableIdSymbol s)(v \<mapsto> idGenerators s page)
           \<and> idGenerators s' page = idGenerators s page + 1"
proof -
  from assms(1) obtain w older where st: "storage s page = Some (w # older)"
    using registeredE by blast
  show ?thesis
    using assms(2,3)
    by (simp add: collector_registered [OF st] falsy_def idGenerator_below_max registered_def)
qed

lemma splitAfterNavigation_registered:
  "storage s page = Some navigations \<Longrightarrow>
   splitAfterNavigation page s = s\<lparr>storage := (storage s)(page \<mapsto> take 3 ([] # navigations))\<rparr>"
  by (simp add: splitAfterNavigation_def maxNavigationSaved_def)

text \<open>The rotation of the base class tolerates a missing page and keeps at most three windows.\<close>

lemma splitAfterNavigation_unregistered:
  "storage s page = None \<Longrightarrow> splitAfterNavigation page s = s"
  by (simp add: splitAfterNavigation_def)

lemma splitAfterNavigation_bound:
  "storage s page = Some navigations \<Longrightarrow>
   \<exists>ns. storage (splitAfterNavigation page s) page = Some ns
        \<and> ns \<noteq> [] \<and> length ns \<le> maxNavigationSaved"
  by (simp add: splitAfterNavigation_registered maxNavigationSaved_def)

text \<open>The rotation of NetworkCollector adds a window and drops none.\<close>

lemma NetworkCollector_split_grows:
  "storage s page = Some (w # older) \<Longrightarrow>
   \<exists>s' ns. NetworkCollector_splitAfterNavigation e page s = Inr s'
      \<and> storage s' page = Some ns \<and> length ns = Suc (Suc (length older))"
  by (simp add: NetworkCollector_splitAfterNavigation_def Let_def)

lemma split_keeps_ids:
  assumes "registered s page"
  shows "\<exists>s'. this_splitAfterNavigation cls e page s = Inr s' \<and> registered s' page
           \<and> stableIdSymbol s' = stableIdSymbol s \<and> idGenerators s' = idGenerators s"
proof -
  from assms obtain w older where st: "storage s page = Some (w # older)"
    using registeredE by blast
  show ?thesis
  proof (cases cls)
    case PageCollector
    then show ?thesis
      by (simp add: this_splitAfterNavigation_def splitAfterNavigation_registered [OF st]
          registered_def)
  next
    case NetworkCollector
    then show ?thesis
      by (simp add: this_splitAfterNavigation_def NetworkCollector_splitAfterNavigation_def
          st Let_def registered_def)
  qed
qed

subsection \<open>Runs\<close>

lemma run_append:
  "run cls e page (evs @ evs') s =
     (case run cls e page evs s of Inl thrown \<Rightarrow> Inl thrown | Inr s' \<Rightarrow> run cls e page evs' s')"
  by (induction evs arbitrary: s) (simp_all split: sum.splits)

lemma collected_each_then_navigate:
  "collected (concat (map (\<lambda>x. [Collect x, Navigate]) xs)) = xs"
  by (induction xs) simp_all

lemma page_event_each_then_navigate:
  "\<forall>ev \<in> set (concat (map (\<lambda>x. [Collect x, Navigate]) xs)). page_event ev"
  by (induction xs) simp_all

text \<open>
  In a PageCollector no run of collected items and navigations lets a page hold more than
  \<open>maxNavigationSaved\<close> windows.
\<close>

lemma PageCollector_run_bound:
  assumes "storage s page = Some ns" and "ns \<noteq> []" and "length ns \<le> maxNavigationSaved"
    and "\<forall>ev \<in> set evs. page_event ev"
  shows "\<exists>s' ns'. run PageCollector e page evs s = Inr s' \<and> storage s' page = Some ns'
           \<and> ns' \<noteq> [] \<and> length ns' \<le> maxNavigationSaved"
  using assms
proof (induction evs arbitrary: s ns)
  case Nil
  then show ?case by simp
next
  case (Cons ev evs)
  have rest: "\<forall>ev \<in> set evs. page_event ev" using Cons.prems(4) by simp
  show ?case
  proof (cases ev)
    case (Collect v)
    obtain w older where ns: "ns = w # older" using Cons.prems(2) by (cases ns) auto
    define s1 where "s1 =
        (if falsy (stableIdSymbol s v)
         then s\<lparr>stableIdSymbol := (stableIdSymbol s)(v \<mapsto> fst (idGenerator (idGenerators s page))),
                idGenerators := (idGenerators s)(page := snd (idGenerator (idGenerators s page)))\<rparr>
         else s)
        \<lparr>storage := (storage s)(page \<mapsto> (if v \<in> set w then w else w @ [v]) # older)\<rparr>"
    have c: "collector page v s = Inr s1"
      using Cons.prems(1) unfolding ns s1_def by (rule collector_registered)
    have st: "storage s1 page = Some ((if v \<in> set w then w else w @ [v]) # older)"
      by (simp add: s1_def)
    have "\<exists>s' ns'. run PageCollector e page evs s1 = Inr s' \<and> storage s' page = Some ns'
           \<and> ns' \<noteq> [] \<and> length ns' \<le> maxNavigationSaved"
      using Cons.prems(3) ns rest by (intro Cons.IH [OF st]) simp_all
    then show ?thesis using Collect c by (simp add: handle_event_def)
  next
    case Navigate
    obtain ns1 where st: "storage (splitAfterNavigation page s) page = Some ns1"
      and b: "ns1 \<noteq> []" "length ns1 \<le> maxNavigationSaved"
      using splitAfterNavigation_bound [OF Cons.prems(1)] by blast
    have "\<exists>s' ns'. run PageCollector e page evs (splitAfterNavigation page s) = Inr s'
           \<and> storage s' page = Some ns' \<and> ns' \<noteq> [] \<and> length ns' \<le> maxNavigationSaved"
      by (rule Cons.IH [OF st b rest])
    then show ?thesis
      using Navigate by (simp add: handle_event_def this_splitAfterNavigation_def)
  next
    case (Issue parsed)
    with Cons.prems(4) show ?thesis by simp
  qed
qed

text \<open>
  Along a run in a PageCollector, the windows at the indices below the number of
  navigations seen so far hold only items collected during the run.
\<close>

lemma PageCollector_clean_windows:
  assumes "storage s page = Some ns" and "ns \<noteq> []" and "length ns \<le> 3"
    and "\<forall>ev \<in> set evs. page_event ev"
    and "\<forall>i < length ns. i < k \<longrightarrow> set (ns ! i) \<subseteq> C"
  shows "\<exists>s' ns'. run PageCollector e page evs s = Inr s' \<and> storage s' page = Some ns'
           \<and> ns' \<noteq> [] \<and> length ns' \<le> 3
           \<and> (\<forall>i < length ns'. i < k + rotations evs \<longrightarrow> set (ns' ! i) \<subseteq> C \<union> set (collected evs))"
  using assms
proof (induction evs arbitrary: s ns k C)
  case Nil
  then show ?case by simp
next
  case (Cons ev evs)
  have rest: "\<forall>ev \<in> set evs. page_event ev" using Cons.prems(4) by simp
  have old: "\<And>i. i < length ns \<Longrightarrow> i < k \<Longrightarrow> set (ns ! i) \<subseteq> C"
    using Cons.prems(5) by blast
  show ?case
  proof (cases ev)
    case (Collect v)
    obtain w older where ns: "ns = w # older" using Cons.prems(2) by (cases ns) auto
    let ?w = "if v \<in> set w then w else w @ [v]"
    define s1 where "s1 =
        (if falsy (stableIdSymbol s v)
         then s\<lparr>stableIdSymbol := (stableIdSymbol s)(v \<mapsto> fst (idGenerator (idGenerators s page))),
                idGenerators := (idGenerators s)(page := snd (idGenerator (idGenerators s page)))\<rparr>
         else s)
        \<lparr>storage := (storage s)(page \<mapsto> ?w # older)\<rparr>"
    have c: "collector page v s = Inr s1"
      using Cons.prems(1) unfolding ns s1_def by (rule collector_registered)
    have st: "storage s1 page = Some (?w # older)"
      by (simp add: s1_def)
    have clean: "\<forall>i < length (?w # older). i < k \<longrightarrow> set ((?w # older) ! i) \<subseteq> insert v C"
    proof (intro allI impI)
      fix i assume i: "i < length (?w # older)" and ik: "i < k"
      show "set ((?w # older) ! i) \<subseteq> insert v C"
      proof (cases i)
        case 0
        have "set (ns ! 0) \<subseteq> C" using old [of 0] ns ik 0 by simp
        then have "set w \<subseteq> C" using ns by simp
        then show ?thesis using 0 by auto
      next
        case (Suc j)
        have "set (ns ! i) \<subseteq> C" using old [of i] ns i ik by simp
        then show ?thesis using Suc ns by auto
      qed
    qed
    have "\<exists>s' ns'. run PageCollector e page evs s1 = Inr s' \<and> storage s' page = Some ns'
           \<and> ns' \<noteq> [] \<and> length ns' \<le> 3
           \<and> (\<forall>i < length ns'. i < k + rotations evs
                  \<longrightarrow> set (ns' ! i) \<subseteq> insert v C \<union> set (collected evs))"
      using Cons.prems(3) ns by (intro Cons.IH [OF st _ _ rest clean]) simp_all
    then show ?thesis using Collect c by (simp add: handle_event_def)
  next
    case Navigate
    let ?ns = "take 3 ([] # ns)"
    have st: "storage (splitAfterNavigation page s) page = Some ?ns"
      by (simp add: splitAfterNavigation_registered [OF Cons.prems(1)])
    have clean: "\<forall>i < length ?ns. i < Suc k \<longrightarrow> set (?ns ! i) \<subseteq> C"
    proof (intro allI impI)
      fix i assume i: "i < length ?ns" and ik: "i < Suc k"
      show "set (?ns ! i) \<subseteq> C"
      proof (cases i)
        case 0
        then show ?thesis by simp
      next
        case (Suc j)
        then have "j < length ns" and "j < k" using i ik by simp_all
        then have "set (ns ! j) \<subseteq> C" by (rule old)
        then show ?thesis using Suc i by simp
      qed
    qed
    have "\<exists>s' ns'. run PageCollector e page evs (splitAfterNavigation page s) = Inr s'
           \<and> storage s' page = Some ns' \<and> ns' \<noteq> [] \<and> length ns' \<le> 3
           \<and> (\<forall>i < length ns'. i < Suc k + rotations evs
                  \<longrightarrow> set (ns' ! i) \<subseteq> C \<union> set (collected evs))"
      by (intro Cons.IH [OF st _ _ rest clean]) simp_all
    then show ?thesis
      using Navigate by (simp add: handle_event_def this_splitAfterNavigation_def)
  next
    case (Issue parsed)
    with Cons.prems(4) show ?thesis by simp
  qed
qed

text \<open>
  In a PageCollector, after \<open>maxNavigationSaved\<close> or more navigations the history holds
  only items collected during the run: whatever the page held before is out of reach.
\<close>

lemma PageCollector_old_epochs_unreachable:
  assumes "storage s page = Some ns" and "ns \<noteq> []" and "length ns \<le> maxNavigationSaved"
    and "\<forall>ev \<in> set evs. page_event ev"
    and "maxNavigationSaved \<le> rotations evs"
  shows "\<exists>s' data. run PageCollector e page evs s = Inr s'
           \<and> getData s' page True = Some data \<and> set data \<subseteq> set (collected evs)"
proof -
  have len: "length ns \<le> 3" using assms(3) by (simp add: maxNavigationSaved_def)
  have three: "3 \<le> rotations evs" using assms(5) by (simp add: maxNavigationSaved_def)
  have "\<forall>i < length ns. i < 0 \<longrightarrow> set (ns ! i) \<subseteq> {}" by simp
  from PageCollector_clean_windows [OF assms(1,2) len assms(4) this, of e]
  obtain s' ns' where r: "run PageCollector e page evs s = Inr s'"
    and st: "storage s' page = Some ns'" and l: "length ns' \<le> 3"
    and clean: "\<forall>i < length ns'. i < 0 + rotations evs
                  \<longrightarrow> set (ns' ! i) \<subseteq> {} \<union> set (collected evs)"
    by blast
  have d: "getData s' page True = Some (concat (rev ns'))"
    using st l by (simp add: getData_history)
  have "set (concat (rev ns')) \<subseteq> set (collected evs)"
  proof
    fix x assume "x \<in> set (concat (rev ns'))"
    then obtain w where w: "w \<in> set ns'" "x \<in> set w" by auto
    then obtain i where i: "i < length ns'" "ns' ! i = w" by (auto simp: in_set_conv_nth)
    then have "i < 0 + rotations evs" using l three by simp
    then have "set w \<subseteq> set (collected evs)" using clean i by auto
    then show "x \<in> set (collected evs)" using w(2) by blast
  qed
  with r d show ?thesis by blast
qed

text \<open>
  Ids along a run of collected items and navigations on one page. \<open>T\<close> holds the items
  that already carry an id of this page's counter. As long as the counter does not pass
  \<open>MAX_SAFE_INTEGER\<close>, every item of \<open>T\<close> keeps its id, every other collected item
  receives an id of the counter, and all these ids are pairwise distinct.
\<close>

lemma collector_tagged:
  assumes "registered s page" and "stableIdSymbol s v = Some n" and "n \<noteq> 0"
  shows "\<exists>s'. collector page v s = Inr s' \<and> registered s' page
           \<and> stableIdSymbol s' = stableIdSymbol s \<and> idGenerators s' = idGenerators s"
proof -
  from assms(1) obtain w older where st: "storage s page = Some (w # older)"
    using registeredE by blast
  show ?thesis
    using assms(2,3)
    by (simp add: collector_registered [OF st] falsy_def registered_def)
qed

lemma run_ids_inj:
  assumes "registered s page"
    and "\<forall>ev \<in> set evs. page_event ev"
    and "finite T"
    and "1 \<le> c0" and "c0 \<le> idGenerators s page"
    and "\<forall>x \<in> T. \<exists>n. stableIdSymbol s x = Some n \<and> c0 \<le> n \<and> n < idGenerators s page"
    and "inj_on (stableIdSymbol s) T"
    and "\<forall>x \<in> set (collected evs) - T. stableIdSymbol s x = None"
    and "idGenerators s page + int (card (set (collected evs) - T)) \<le> MAX_SAFE_INTEGER"
  shows "\<exists>s'. run cls e page evs s = Inr s' \<and> registered s' page
      \<and> idGenerators s' page = idGenerators s page + int (card (set (collected evs) - T))
      \<and> (\<forall>x \<in> T \<union> set (collected evs).
            \<exists>n. stableIdSymbol s' x = Some n \<and> c0 \<le> n \<and> n < idGenerators s' page)
      \<and> inj_on (stableIdSymbol s') (T \<union> set (collected evs))
      \<and> (\<forall>y. y \<notin> set (collected evs) - T \<longrightarrow> stableIdSymbol s' y = stableIdSymbol s y)"
  using assms
proof (induction evs arbitrary: s T)
  case Nil
  then show ?case by simp
next
  case (Cons ev evs)
  have rest: "\<forall>ev \<in> set evs. page_event ev" using Cons.prems(2) by simp
  show ?case
  proof (cases ev)
    case (Collect v)
    have xs: "collected (ev # evs) = v # collected evs" using Collect by simp
    show ?thesis
    proof (cases "v \<in> T")
      case True
      then obtain n where n: "stableIdSymbol s v = Some n" "c0 \<le> n"
        using Cons.prems(6) by blast
      then have "n \<noteq> 0" using Cons.prems(4) by simp
      then obtain s1 where s1: "collector page v s = Inr s1" "registered s1 page"
        "stableIdSymbol s1 = stableIdSymbol s" "idGenerators s1 = idGenerators s"
        using collector_tagged [OF Cons.prems(1) n(1)] by blast
      have same: "set (collected (ev # evs)) - T = set (collected evs) - T"
        and un: "T \<union> set (collected (ev # evs)) = T \<union> set (collected evs)"
        using True xs by auto
      have p5: "c0 \<le> idGenerators s1 page" using Cons.prems(5) s1(4) by simp
      have p6: "\<forall>x \<in> T. \<exists>n. stableIdSymbol s1 x = Some n \<and> c0 \<le> n \<and> n < idGenerators s1 page"
        using Cons.prems(6) s1(3,4) by simp
      have p7: "inj_on (stableIdSymbol s1) T" using Cons.prems(7) s1(3) by simp
      have p8: "\<forall>x \<in> set (collected evs) - T. stableIdSymbol s1 x = None"
        using Cons.prems(8) same s1(3) by simp
      have p9: "idGenerators s1 page + int (card (set (collected evs) - T)) \<le> MAX_SAFE_INTEGER"
        using Cons.prems(9) same s1(4) by simp
      have "\<exists>s'. run cls e page evs s1 = Inr s' \<and> registered s' page
          \<and> idGenerators s' page = idGenerators s1 page + int (card (set (collected evs) - T))
          \<and> (\<forall>x \<in> T \<union> set (collected evs).
                \<exists>n. stableIdSymbol s' x = Some n \<and> c0 \<le> n \<and> n < idGenerators s' page)
          \<and> inj_on (stableIdSymbol s') (T \<union> set (collected evs))
          \<and> (\<forall>y. y \<notin> set (collected evs) - T \<longrightarrow> stableIdSymbol s' y = stableIdSymbol s1 y)"
        by (rule Cons.IH [OF s1(2) rest Cons.prems(3) Cons.prems(4) p5 p6 p7 p8 p9])
      moreover have "run cls e page (ev # evs) s = run cls e page evs s1"
        using Collect s1(1) by (simp add: handle_event_def)
      ultimately show ?thesis unfolding same un using s1(3,4) by simp
    next
      case False
      let ?c = "idGenerators s page"
      let ?T = "insert v T"
      have fresh: "stableIdSymbol s v = None" using Cons.prems(8) xs False by simp
      have split: "set (collected (ev # evs)) - T = insert v (set (collected evs) - ?T)"
        using False xs by auto
      have fin: "finite (set (collected evs) - ?T)" by simp
      have v_notin: "v \<notin> set (collected evs) - ?T" by simp
      have card: "card (set (collected (ev # evs)) - T) = Suc (card (set (collected evs) - ?T))"
        unfolding split using fin v_notin by (rule card_insert_disjoint)
      have below: "?c \<noteq> MAX_SAFE_INTEGER" using Cons.prems(9) card by simp
      obtain s1 where s1: "collector page v s = Inr s1" "registered s1 page"
        "stableIdSymbol s1 = (stableIdSymbol s)(v \<mapsto> ?c)" "idGenerators s1 page = ?c + 1"
        using collector_fresh [OF Cons.prems(1) fresh below] by blast
      have q3: "finite ?T" using Cons.prems(3) by simp
      have q5: "c0 \<le> idGenerators s1 page" using Cons.prems(5) s1(4) by simp
      have q6: "\<forall>x \<in> ?T. \<exists>n. stableIdSymbol s1 x = Some n \<and> c0 \<le> n \<and> n < idGenerators s1 page"
      proof
        fix x assume x: "x \<in> ?T"
        show "\<exists>n. stableIdSymbol s1 x = Some n \<and> c0 \<le> n \<and> n < idGenerators s1 page"
        proof (cases "x = v")
          case True
          then show ?thesis using s1(3,4) Cons.prems(5) by simp
        next
          case False
          then have "x \<in> T" using x by simp
          then obtain n where "stableIdSymbol s x = Some n" "c0 \<le> n" "n < ?c"
            using Cons.prems(6) by blast
          then show ?thesis using False s1(3,4) by simp
        qed
      qed
      have q7: "inj_on (stableIdSymbol s1) ?T"
      proof (rule inj_onI)
        fix x y assume x: "x \<in> ?T" and y: "y \<in> ?T"
          and eq: "stableIdSymbol s1 x = stableIdSymbol s1 y"
        have old: "\<And>z. z \<in> T \<Longrightarrow> stableIdSymbol s1 z = stableIdSymbol s z
                      \<and> stableIdSymbol s z \<noteq> Some ?c"
        proof -
          fix z assume z: "z \<in> T"
          then obtain n where "stableIdSymbol s z = Some n" "n < ?c"
            using Cons.prems(6) by blast
          moreover have "z \<noteq> v" using z False by blast
          ultimately show "stableIdSymbol s1 z = stableIdSymbol s z
                      \<and> stableIdSymbol s z \<noteq> Some ?c"
            using s1(3) by simp
        qed
        have new: "stableIdSymbol s1 v = Some ?c" using s1(3) by simp
        show "x = y"
        proof (cases "x = v")
          case True
          show ?thesis
          proof (cases "y = v")
            case True
            with \<open>x = v\<close> show ?thesis by simp
          next
            case False
            then have "y \<in> T" using y by simp
            with old [of y] eq new \<open>x = v\<close> show ?thesis by simp
          qed
        next
          case xv: False
          then have xT: "x \<in> T" using x by simp
          show ?thesis
          proof (cases "y = v")
            case True
            with old [OF xT] eq new show ?thesis by metis
          next
            case False
            then have yT: "y \<in> T" using y by simp
            have "stableIdSymbol s x = stableIdSymbol s y"
              using old [OF xT] old [OF yT] eq by simp
            with Cons.prems(7) xT yT show ?thesis by (simp add: inj_on_def)
          qed
        qed
      qed
      have q8: "\<forall>x \<in> set (collected evs) - ?T. stableIdSymbol s1 x = None"
        using Cons.prems(8) xs s1(3) by auto
      have q9: "idGenerators s1 page + int (card (set (collected evs) - ?T)) \<le> MAX_SAFE_INTEGER"
        using Cons.prems(9) card s1(4) by simp
      obtain s' where s': "run cls e page evs s1 = Inr s'" "registered s' page"
        "idGenerators s' page = idGenerators s1 page + int (card (set (collected evs) - ?T))"
        "\<forall>x \<in> ?T \<union> set (collected evs).
            \<exists>n. stableIdSymbol s' x = Some n \<and> c0 \<le> n \<and> n < idGenerators s' page"
        "inj_on (stableIdSymbol s') (?T \<union> set (collected evs))"
        "\<forall>y. y \<notin> set (collected evs) - ?T \<longrightarrow> stableIdSymbol s' y = stableIdSymbol s1 y"
        using Cons.IH [OF s1(2) rest q3 Cons.prems(4) q5 q6 q7 q8 q9] by blast
      have un: "T \<union> set (collected (ev # evs)) = ?T \<union> set (collected evs)"
        using xs by auto
      have r: "run cls e page (ev # evs) s = Inr s'"
        using Collect s1(1) s'(1) by (simp add: handle_event_def)
      have c: "idGenerators s' page = ?c + int (card (set (collected (ev # evs)) - T))"
        using s'(3) s1(4) card by simp
      have others: "\<forall>y. y \<notin> set (collected (ev # evs)) - T \<longrightarrow> stableIdSymbol s' y = stableIdSymbol s y"
      proof (intro allI impI)
        fix y assume y: "y \<notin> set (collected (ev # evs)) - T"
        then have "y \<noteq> v" and "y \<notin> set (collected evs) - ?T" using split by auto
        then show "stableIdSymbol s' y = stableIdSymbol s y" using s'(6) s1(3) by simp
      qed
      from r s'(2) c s'(4,5) others show ?thesis unfolding un by blast
    qed
  next
    case Navigate
    have xs: "collected (ev # evs) = collected evs" using Navigate by simp
    obtain s1 where s1: "this_splitAfterNavigation cls e page s = Inr s1" "registered s1 page"
      "stableIdSymbol s1 = stableIdSymbol s" "idGenerators s1 = idGenerators s"
      using split_keeps_ids [OF Cons.prems(1)] by blast
    have p5: "c0 \<le> idGenerators s1 page" using Cons.prems(5) s1(4) by simp
    have p6: "\<forall>x \<in> T. \<exists>n. stableIdSymbol s1 x = Some n \<and> c0 \<le> n \<and> n < idGenerators s1 page"
      using Cons.prems(6) s1(3,4) by simp
    have p7: "inj_on (stableIdSymbol s1) T" using Cons.prems(7) s1(3) by simp
    have p8: "\<forall>x \<in> set (collected evs) - T. stableIdSymbol s1 x = None"
      using Cons.prems(8) xs s1(3) by simp
    have p9: "idGenerators s1 page + int (card (set (collected evs) - T)) \<le> MAX_SAFE_INTEGER"
      using Cons.prems(9) xs s1(4) by simp
    have "\<exists>s'. run cls e page evs s1 = Inr s' \<and> registered s' page
          \<and> idGenerators s' page = idGenerators s1 page + int (card (set (collected evs) - T))
          \<and> (\<forall>x \<in> T \<union> set (collected evs).
                \<exists>n. stableIdSymbol s' x = Some n \<and> c0 \<le> n \<and> n < idGenerators s' page)
          \<and> inj_on (stableIdSymbol s') (T \<union> set (collected evs))
          \<and> (\<forall>y. y \<notin> set (collected evs) - T \<longrightarrow> stableIdSymbol s' y = stableIdSymbol s1 y)"
      by (rule Cons.IH [OF s1(2) rest Cons.prems(3) Cons.prems(4) p5 p6 p7 p8 p9])
    moreover have "run cls e page (ev # evs) s = run cls e page evs s1"
      using Navigate s1(1) by (simp add: handle_event_def)
    ultimately show ?thesis unfolding xs using s1(3,4) by simp
  next
    case (Issue parsed)
    with Cons.prems(2) show ?thesis by simp
  qed
qed

subsection \<open>Raw issues\<close>

text \<open>
  The collector touches neither the seen keys nor the managers, and it returns unless the
  page's list of windows is empty, which it then is not afterwards either.
\<close>

lemma collector_keeps_issue_state:
  assumes "storage s page \<noteq> Some []"
  shows "\<exists>s'. collector page v s = Inr s' \<and> seenIssueKeys s' = seenIssueKeys s
           \<and> mockIssuesManagers s' = mockIssuesManagers s \<and> storage s' page \<noteq> Some []"
proof (cases "storage s page")
  case None
  then show ?thesis
    by (cases "idGenerator (idGenerators s page)") (simp add: collector_def Let_def)
next
  case (Some ns)
  with assms obtain w older where "storage s page = Some (w # older)"
    by (cases ns) auto
  then show ?thesis
    by (simp add: collector_registered)
qed

lemma collect_all_keeps_issue_state:
  "storage s page \<noteq> Some [] \<Longrightarrow>
   \<exists>s'. collect_all page vs s = Inr s' \<and> seenIssueKeys s' = seenIssueKeys s
      \<and> mockIssuesManagers s' = mockIssuesManagers s \<and> storage s' page \<noteq> Some []"
proof (induction vs arbitrary: s)
  case Nil
  then show ?case by simp
next
  case (Cons v vs)
  obtain s1 where s1: "collector page v s = Inr s1" "seenIssueKeys s1 = seenIssueKeys s"
    "mockIssuesManagers s1 = mockIssuesManagers s" "storage s1 page \<noteq> Some []"
    using collector_keeps_issue_state [OF Cons.prems] by blast
  obtain s' where "collect_all page vs s1 = Inr s'" "seenIssueKeys s' = seenIssueKeys s1"
    "mockIssuesManagers s' = mockIssuesManagers s1" "storage s' page \<noteq> Some []"
    using Cons.IH [OF s1(4)] by blast
  then show ?case using s1 by simp
qed

lemma issueAdded_seen:
  "seenIssueKeys s page = Some seenKeys \<Longrightarrow> primaryKey iss \<in> seenKeys \<Longrightarrow>
   issueAdded e page (Some iss) s = Inr s"
  by (simp add: issueAdded_def)

lemma issueAdded_new:
  assumes "seenIssueKeys s page = Some seenKeys" and "primaryKey iss \<notin> seenKeys"
    and "mockIssuesManagers s page = Some dispatched" and "storage s page \<noteq> Some []"
  shows "\<exists>s'. issueAdded e page (Some iss) s = Inr s'
           \<and> seenIssueKeys s' page = Some (insert (primaryKey iss) seenKeys)
           \<and> mockIssuesManagers s' page = Some (dispatched @ [iss])
           \<and> storage s' page \<noteq> Some []"
proof -
  let ?s1 = "s\<lparr>seenIssueKeys := (seenIssueKeys s)(page \<mapsto> insert (primaryKey iss) seenKeys),
               mockIssuesManagers := (mockIssuesManagers s)(page \<mapsto> dispatched @ [iss])\<rparr>"
  have st: "storage ?s1 page \<noteq> Some []" using assms(4) by simp
  obtain s' where s': "collect_all page (issueListeners e page dispatched iss) ?s1 = Inr s'"
    "seenIssueKeys s' = seenIssueKeys ?s1" "mockIssuesManagers s' = mockIssuesManagers ?s1"
    "storage s' page \<noteq> Some []"
    using collect_all_keeps_issue_state [OF st] by blast
  have "issueAdded e page (Some iss) s = Inr s'"
    using assms(1,2,3) s'(1) by (simp add: issueAdded_def)
  then show ?thesis using s'(2,3,4) by simp
qed

text \<open>
  Over any sequence of raw issues the manager receives one issue per primary key that was
  not seen before.
\<close>

lemma issues_run:
  assumes "seenIssueKeys s page = Some seenKeys" and "mockIssuesManagers s page = Some dispatched"
    and "storage s page \<noteq> Some []"
  shows "\<exists>s' fwd. run PageCollector e page (map (\<lambda>i. Issue (Some i)) iss) s = Inr s'
           \<and> mockIssuesManagers s' page = Some (dispatched @ fwd)
           \<and> seenIssueKeys s' page = Some (seenKeys \<union> primaryKey ` set iss)
           \<and> distinct (map primaryKey fwd)
           \<and> set (map primaryKey fwd) = primaryKey ` set iss - seenKeys"
  using assms
proof (induction iss arbitrary: s seenKeys dispatched)
  case Nil
  then show ?case by simp
next
  case (Cons i iss)
  show ?case
  proof (cases "primaryKey i \<in> seenKeys")
    case True
    have step: "issueAdded e page (Some i) s = Inr s"
      using Cons.prems(1) True by (rule issueAdded_seen)
    obtain s' fwd where r: "run PageCollector e page (map (\<lambda>i. Issue (Some i)) iss) s = Inr s'"
      "mockIssuesManagers s' page = Some (dispatched @ fwd)"
      "seenIssueKeys s' page = Some (seenKeys \<union> primaryKey ` set iss)"
      "distinct (map primaryKey fwd)"
      "set (map primaryKey fwd) = primaryKey ` set iss - seenKeys"
      using Cons.IH [OF Cons.prems] by blast
    have "run PageCollector e page (map (\<lambda>i. Issue (Some i)) (i # iss)) s = Inr s'"
      using step r(1) by (simp add: handle_event_def)
    moreover have "seenKeys \<union> primaryKey ` set (i # iss) = seenKeys \<union> primaryKey ` set iss"
      using True by auto
    moreover have "primaryKey ` set (i # iss) - seenKeys = primaryKey ` set iss - seenKeys"
      using True by auto
    ultimately show ?thesis using r by auto
  next
    case False
    obtain s1 where s1: "issueAdded e page (Some i) s = Inr s1"
      "seenIssueKeys s1 page = Some (insert (primaryKey i) seenKeys)"
      "mockIssuesManagers s1 page = Some (dispatched @ [i])"
      "storage s1 page \<noteq> Some []"
      using issueAdded_new [OF Cons.prems(1) False Cons.prems(2,3)] by blast
    obtain s' fwd where r: "run PageCollector e page (map (\<lambda>i. Issue (Some i)) iss) s1 = Inr s'"
      "mockIssuesManagers s' page = Some ((dispatched @ [i]) @ fwd)"
      "seenIssueKeys s' page = Some (insert (primaryKey i) seenKeys \<union> primaryKey ` set iss)"
      "distinct (map primaryKey fwd)"
      "set (map primaryKey fwd) = primaryKey ` set iss - insert (primaryKey i) seenKeys"
      using Cons.IH [OF s1(2,3,4)] by blast
    have a: "run PageCollector e page (map (\<lambda>i. Issue (Some i)) (i # iss)) s = Inr s'"
      using s1(1) r(1) by (simp add: handle_event_def)
    have b: "mockIssuesManagers s' page = Some (dispatched @ (i # fwd))"
      using r(2) by simp
    have c: "seenIssueKeys s' page = Some (seenKeys \<union> primaryKey ` set (i # iss))"
      using r(3) by simp
    have d: "distinct (map primaryKey (i # fwd))"
      using r(4,5) by auto
    have f: "set (map primaryKey (i # fwd)) = primaryKey ` set (i # iss) - seenKeys"
      using r(5) False by auto
    from a b c d f show ?thesis by blast
  qed
qed

section \<open>The claims\<close>

subsection \<open>C1: retained windows after a rotation\<close>

text \<open>
  Claim C1 says that after any rotation, default or NetworkCollector, a page has at most
  \<open>maxNavigationSaved\<close> = 3 windows. The base class keeps the bound
  (\<open>splitAfterNavigation_bound\<close>, \<open>PageCollector_run_bound\<close>), but the override of
  NetworkCollector never truncates (\<open>NetworkCollector_split_grows\<close>): a freshly registered
  page of a NetworkCollector has four windows after three navigations, where a page of a
  PageCollector has three.
\<close>

theorem C1_network_rotation_never_truncates:
  "(case run NetworkCollector requests_env 0 [Navigate, Navigate, Navigate]
           (initializePage NetworkCollector 0 new_collector) of
      Inl thrown \<Rightarrow> None
    | Inr s \<Rightarrow> storage s 0)
   = Some [[], [], [], []]
   \<and> (case run PageCollector requests_env 0 [Navigate, Navigate, Navigate]
           (initializePage PageCollector 0 new_collector) of
      Inl thrown \<Rightarrow> None
    | Inr s \<Rightarrow> storage s 0)
   = Some [[], [], []]"
  by (simp add: handle_event_def this_splitAfterNavigation_def
      NetworkCollector_splitAfterNavigation_def findLastIndex_def
      splitAfterNavigation_def maxNavigationSaved_def
      initializePage_def subscribeForIssues_def new_collector_def Let_def)

subsection \<open>C2: rotation of a page that is not registered\<close>

text \<open>
  Claim C2 says that rotating a page that is not registered, in either class, changes
  nothing and never throws. After a page was registered and torn down, the rotation of the
  base class returns the state as it is, while the rotation of NetworkCollector throws a
  TypeError (leaving the state as it is).
\<close>

theorem C2_network_rotation_throws_after_teardown:
  "NetworkCollector_splitAfterNavigation e 0
      (cleanupPageDestroyed 0 (initializePage NetworkCollector 0 new_collector))
    = Inl (TypeError, cleanupPageDestroyed 0 (initializePage NetworkCollector 0 new_collector))
   \<and> splitAfterNavigation 0 (cleanupPageDestroyed 0 (initializePage PageCollector 0 new_collector))
    = cleanupPageDestroyed 0 (initializePage PageCollector 0 new_collector)"
  by (simp add: NetworkCollector_splitAfterNavigation_def splitAfterNavigation_def
      cleanupPageDestroyed_def initializePage_def subscribeForIssues_def new_collector_def Let_def)

subsection \<open>C3: ingesting the same reference twice\<close>

text \<open>
  Claim C3 says that ingesting again an item of the current window never reassigns its
  StableId. That holds for every item whose id is not 0 (\<open>collector_idempotent\<close>), but the
  generator emits 0 when it wraps and the collector reads the id 0 as "no id yet". On a
  freshly registered page, collect the items 1 to \<open>MAX_SAFE_INTEGER - 1\<close>, each followed by
  a navigation, and then item 0: item 0 is in the current window with id 0, and collecting
  it once more gives it the id 1.
\<close>

theorem C3_reingest_reassigns_id_zero:
  "(case run PageCollector e 0
           (concat (map (\<lambda>x. [Collect x, Navigate]) [1..<9007199254740991]) @ [Collect 0])
           (initializePage PageCollector 0 new_collector) of
      Inl thrown \<Rightarrow> False
    | Inr s \<Rightarrow>
        stableIdSymbol s 0 = Some 0
        \<and> (case storage s 0 of Some (w # older) \<Rightarrow> 0 \<in> set w | _ \<Rightarrow> False)
        \<and> (case collector 0 0 s of
             Inl thrown \<Rightarrow> False
           | Inr s' \<Rightarrow> stableIdSymbol s' 0 = Some 1 \<and> storage s' = storage s))"
proof -
  let ?init = "initializePage PageCollector 0 new_collector"
  let ?warm = "concat (map (\<lambda>x. [Collect x, Navigate]) [1..<9007199254740991])"
  have col: "collected ?warm = [1..<9007199254740991]"
    by (rule collected_each_then_navigate)
  have reg0: "registered ?init 0"
    by (simp add: registered_def initializePage_fields)
  have ids0: "stableIdSymbol ?init = Map.empty"
    by (simp add: initializePage_fields new_collector_def)
  have gen0: "idGenerators ?init 0 = 1"
    by (simp add: initializePage_fields createIdGenerator_def)
  have crd: "card (set (collected ?warm) - {}) = 9007199254740990"
    unfolding col by simp
  have "\<exists>s'. run PageCollector e 0 ?warm ?init = Inr s' \<and> registered s' 0
      \<and> idGenerators s' 0 = idGenerators ?init 0 + int (card (set (collected ?warm) - {}))
      \<and> (\<forall>x \<in> {} \<union> set (collected ?warm).
            \<exists>n. stableIdSymbol s' x = Some n \<and> 1 \<le> n \<and> n < idGenerators s' 0)
      \<and> inj_on (stableIdSymbol s') ({} \<union> set (collected ?warm))
      \<and> (\<forall>y. y \<notin> set (collected ?warm) - {} \<longrightarrow> stableIdSymbol s' y = stableIdSymbol ?init y)"
  proof (rule run_ids_inj [OF reg0 page_event_each_then_navigate])
    show "finite ({} :: item set)" by simp
    show "(1::int) \<le> 1" by simp
    show "1 \<le> idGenerators ?init 0" by (simp add: gen0)
    show "\<forall>x \<in> {}. \<exists>n. stableIdSymbol ?init x = Some n \<and> 1 \<le> n \<and> n < idGenerators ?init 0"
      by simp
    show "inj_on (stableIdSymbol ?init) {}" by simp
    show "\<forall>x \<in> set (collected ?warm) - {}. stableIdSymbol ?init x = None" by (simp add: ids0)
    show "idGenerators ?init 0 + int (card (set (collected ?warm) - {})) \<le> MAX_SAFE_INTEGER"
      unfolding crd gen0 by (simp add: MAX_SAFE_INTEGER_def)
  qed
  then obtain s1 where s1: "run PageCollector e 0 ?warm ?init = Inr s1" "registered s1 0"
    "idGenerators s1 0 = idGenerators ?init 0 + int (card (set (collected ?warm) - {}))"
    "\<forall>y. y \<notin> set (collected ?warm) - {} \<longrightarrow> stableIdSymbol s1 y = stableIdSymbol ?init y"
    by blast
  have gen1: "idGenerators s1 0 = MAX_SAFE_INTEGER"
    unfolding s1(3) crd gen0 by (simp add: MAX_SAFE_INTEGER_def)
  have "0 \<notin> set (collected ?warm) - {}" unfolding col by simp
  then have id1: "stableIdSymbol s1 0 = None" using s1(4) ids0 by simp
  obtain w older where st1: "storage s1 0 = Some (w # older)"
    using registeredE [OF s1(2)] by blast
  define s2 where "s2 = s1\<lparr>stableIdSymbol := (stableIdSymbol s1)(0 \<mapsto> 0),
      idGenerators := (idGenerators s1)(0 := 1),
      storage := (storage s1)(0 \<mapsto> (if 0 \<in> set w then w else w @ [0]) # older)\<rparr>"
  have c1: "collector 0 0 s1 = Inr s2"
    by (simp add: collector_registered [OF st1] id1 gen1 falsy_def idGenerator_def s2_def)
  have st2: "storage s2 0 = Some ((if 0 \<in> set w then w else w @ [0]) # older)"
    by (simp add: s2_def)
  have id2: "stableIdSymbol s2 0 = Some 0" and gen2: "idGenerators s2 0 = 1"
    by (simp_all add: s2_def)
  have c2: "collector 0 0 s2 =
      Inr (s2\<lparr>stableIdSymbol := (stableIdSymbol s2)(0 \<mapsto> 1),
              idGenerators := (idGenerators s2)(0 := 2)\<rparr>)"
    by (simp add: collector_registered [OF st2] id2 gen2 falsy_def idGenerator_def
        MAX_SAFE_INTEGER_def map_upd_triv st2)
  have r: "run PageCollector e 0 (?warm @ [Collect 0]) ?init = Inr s2"
    unfolding run_append s1(1) by (simp add: handle_event_def c1)
  show ?thesis
    unfolding r by (simp add: id2 st2 c2)
qed

subsection \<open>C4: the history returned by getData\<close>

text \<open>
  Claim C4 says that after four or more rotations \<^verbatim>\<open>getData(page, true)\<close> returns the
  items of at most three epochs. The loop of \<^verbatim>\<open>getData\<close> reads the four indices 3 to 0
  (\<open>getData_history\<close>); these are at most three windows where rotation truncates
  (\<open>getData_history_bounded\<close>, \<open>PageCollector_old_epochs_unreachable\<close>), which the
  rotation of NetworkCollector does not do. On a page of a NetworkCollector that collected
  one request in each of five epochs, the query returns the requests of four epochs; on a
  page of a PageCollector, those of three.
\<close>

theorem C4_network_history_spans_four_epochs:
  "(case run NetworkCollector requests_env 0
           [Collect 11, Navigate, Collect 12, Navigate, Collect 13, Navigate,
            Collect 14, Navigate, Collect 15]
           (initializePage NetworkCollector 0 new_collector) of
      Inl thrown \<Rightarrow> None
    | Inr s \<Rightarrow> getData s 0 True)
   = Some [12, 13, 14, 15]
   \<and> (case run PageCollector requests_env 0
           [Collect 11, Navigate, Collect 12, Navigate, Collect 13, Navigate,
            Collect 14, Navigate, Collect 15]
           (initializePage PageCollector 0 new_collector) of
      Inl thrown \<Rightarrow> None
    | Inr s \<Rightarrow> getData s 0 True)
   = Some [13, 14, 15]"
  by (simp add: handle_event_def this_splitAfterNavigation_def
      NetworkCollector_splitAfterNavigation_def findLastIndex_def isMainFrameNavigation_def
      splitAfterNavigation_def
      requests_env_def collector_def falsy_def idGenerator_def createIdGenerator_def
      MAX_SAFE_INTEGER_def getData_def getData_loop_eq maxNavigationSaved_def
      initializePage_def subscribeForIssues_def new_collector_def Let_def)

subsection \<open>C5: the split of NetworkCollector\<close>

text \<open>
  Claim C5: when the current window is \<open>pre @ c # post\<close>, with \<open>c\<close> the last request of
  the page's main frame that is a navigation request, the rotation of NetworkCollector
  makes \<open>c # post\<close> the window at index 0 and \<open>pre\<close> the window at index 1, and leaves
  every older window and the rest of the state as they were; when the current window holds
  no such request, an empty window is put in front of it.
\<close>

theorem C5_network_split:
  "(storage s page = Some ((pre @ c # post) # older)
      \<and> isMainFrameNavigation e page c
      \<and> (\<forall>x \<in> set post. \<not> isMainFrameNavigation e page x)
    \<longrightarrow> NetworkCollector_splitAfterNavigation e page s
          = Inr (s\<lparr>storage := (storage s)(page \<mapsto> (c # post) # pre # older)\<rparr>))
   \<and> (storage s page = Some (w # older)
      \<and> (\<forall>x \<in> set w. \<not> isMainFrameNavigation e page x)
    \<longrightarrow> NetworkCollector_splitAfterNavigation e page s
          = Inr (s\<lparr>storage := (storage s)(page \<mapsto> [] # w # older)\<rparr>))"
proof (intro conjI impI)
  assume a: "storage s page = Some ((pre @ c # post) # older)
      \<and> isMainFrameNavigation e page c
      \<and> (\<forall>x \<in> set post. \<not> isMainFrameNavigation e page x)"
  then have idx: "findLastIndex (isMainFrameNavigation e page) (pre @ c # post) = int (length pre)"
    by (intro findLastIndex_last) simp_all
  show "NetworkCollector_splitAfterNavigation e page s
          = Inr (s\<lparr>storage := (storage s)(page \<mapsto> (c # post) # pre # older)\<rparr>)"
    using a by (simp add: NetworkCollector_splitAfterNavigation_def idx)
next
  assume a: "storage s page = Some (w # older)
      \<and> (\<forall>x \<in> set w. \<not> isMainFrameNavigation e page x)"
  then have idx: "findLastIndex (isMainFrameNavigation e page) w = - 1"
    by (intro findLastIndex_none) simp_all
  show "NetworkCollector_splitAfterNavigation e page s
          = Inr (s\<lparr>storage := (storage s)(page \<mapsto> [] # w # older)\<rparr>)"
    using a by (simp add: NetworkCollector_splitAfterNavigation_def idx)
qed

text \<open>
  Witness for C5 in \<open>requests_env\<close>: the window \<open>[1, 2, 3, 4]\<close>, where 3 is the last
  navigation request of the main frame (4 is a navigation request of another frame), splits
  into \<open>[3, 4]\<close> and \<open>[1, 2]\<close>; the window \<open>[2, 4]\<close> gets an empty window in front.
\<close>

theorem C5_network_split_witness:
  "NetworkCollector_splitAfterNavigation requests_env 0
      (new_collector\<lparr>storage := [0 \<mapsto> [[1, 2, 3, 4], [9]]]\<rparr>)
    = Inr (new_collector\<lparr>storage := [0 \<mapsto> [[3, 4], [1, 2], [9]]]\<rparr>)
   \<and> NetworkCollector_splitAfterNavigation requests_env 0
      (new_collector\<lparr>storage := [0 \<mapsto> [[2, 4], [9]]]\<rparr>)
    = Inr (new_collector\<lparr>storage := [0 \<mapsto> [[], [2, 4], [9]]]\<rparr>)"
proof -
  let ?s = "new_collector\<lparr>storage := [0 \<mapsto> [[1, 2, 3, 4], [9]]]\<rparr>"
  let ?t = "new_collector\<lparr>storage := [0 \<mapsto> [[2, 4], [9]]]\<rparr>"
  have nav: "isMainFrameNavigation requests_env 0 3" "\<not> isMainFrameNavigation requests_env 0 4"
    "\<not> isMainFrameNavigation requests_env 0 2"
    by (simp_all add: isMainFrameNavigation_def requests_env_def)
  have 1: "storage ?s 0 = Some (([1, 2] @ 3 # [4]) # [[9]])
      \<and> isMainFrameNavigation requests_env 0 3
      \<and> (\<forall>x \<in> set [4]. \<not> isMainFrameNavigation requests_env 0 x)"
    using nav by simp
  have 2: "storage ?t 0 = Some ([2, 4] # [[9]])
      \<and> (\<forall>x \<in> set [2, 4]. \<not> isMainFrameNavigation requests_env 0 x)"
    using nav by simp
  from C5_network_split [of ?s 0 "[1, 2]" 3 "[4]" "[[9]]" requests_env]
       C5_network_split [of ?t 0 _ _ _ "[[9]]" requests_env "[2, 4]"] 1 2
  show ?thesis by simp
qed

subsection \<open>C6: the sequence of ids\<close>

text \<open>
  Claim C6, amended. Called again and again, a new id generator emits 1, 2, ... up to
  \<open>MAX_SAFE_INTEGER - 1\<close>, then 0, then 1, 2, ... again: call number \<open>k\<close> (counted from 1)
  emits \<open>k mod MAX_SAFE_INTEGER\<close>. The value \<open>MAX_SAFE_INTEGER\<close> itself is never emitted.
\<close>

theorem C6_generator_skips_max:
  "calls n createIdGenerator = map (\<lambda>k. (1 + int k) mod MAX_SAFE_INTEGER) [0..<n]
   \<and> MAX_SAFE_INTEGER \<notin> set (calls n createIdGenerator)"
proof -
  have M: "0 < MAX_SAFE_INTEGER" by (simp add: MAX_SAFE_INTEGER_def)
  have eq: "calls n createIdGenerator = map (\<lambda>k. (1 + int k) mod MAX_SAFE_INTEGER) [0..<n]"
    unfolding createIdGenerator_def
    by (rule calls_closed_form) (simp_all add: MAX_SAFE_INTEGER_def)
  have "\<forall>x \<in> set (calls n createIdGenerator). x < MAX_SAFE_INTEGER"
    unfolding eq using pos_mod_bound [OF M] by simp
  then have "MAX_SAFE_INTEGER \<notin> set (calls n createIdGenerator)"
    by blast
  with eq show ?thesis by simp
qed

text \<open>
  Counterexample to C6 as stated: of the first 9007199254740991 calls, the last but one
  emits 9007199254740990 and the last emits 0, not 9007199254740991.
\<close>

theorem C6_wraps_before_max:
  "calls 9007199254740991 createIdGenerator ! 9007199254740989 = 9007199254740990
   \<and> calls 9007199254740991 createIdGenerator ! 9007199254740990 = 0"
proof -
  have eq: "calls 9007199254740991 createIdGenerator
            = map (\<lambda>k. (1 + int k) mod MAX_SAFE_INTEGER) [0..<9007199254740991]"
    unfolding createIdGenerator_def
    by (rule calls_closed_form) (simp_all add: MAX_SAFE_INTEGER_def)
  have a: "map (\<lambda>k. (1 + int k) mod MAX_SAFE_INTEGER) [0..<9007199254740991] ! 9007199254740989
           = (1 + int (0 + 9007199254740989)) mod MAX_SAFE_INTEGER"
    by simp
  have b: "map (\<lambda>k. (1 + int k) mod MAX_SAFE_INTEGER) [0..<9007199254740991] ! 9007199254740990
           = (1 + int (0 + 9007199254740990)) mod MAX_SAFE_INTEGER"
    by simp
  show ?thesis
    unfolding eq a b by (simp add: MAX_SAFE_INTEGER_def)
qed

subsection \<open>C7: uniqueness of StableIds\<close>

text \<open>
  Claim C7, amended. StableIds are scoped to a page, not to the collector: registering a
  page gives it a counter of its own that starts at 1. On one registered page, over any run
  of ingests (repeated ones included) and rotations whose items had no id before, as long
  as the page's counter does not pass \<open>MAX_SAFE_INTEGER\<close>: every collected item has an id
  taken from the page's counter, two distinct items never have the same id, and no other
  item's id changes.
\<close>

theorem C7_ids_unique_within_page:
  assumes "registered s page"
    and "\<forall>ev \<in> set evs. page_event ev"
    and "\<forall>x \<in> set (collected evs). stableIdSymbol s x = None"
    and "1 \<le> idGenerators s page"
    and "idGenerators s page + int (card (set (collected evs))) \<le> MAX_SAFE_INTEGER"
  shows "idGenerators (initializePage cls page t) page = 1
    \<and> (\<exists>s'. run cls e page evs s = Inr s'
          \<and> inj_on (stableIdSymbol s') (set (collected evs))
          \<and> (\<forall>x \<in> set (collected evs).
                \<exists>n. stableIdSymbol s' x = Some n \<and> idGenerators s page \<le> n
                  \<and> n < idGenerators s page + int (card (set (collected evs))))
          \<and> (\<forall>y. y \<notin> set (collected evs) \<longrightarrow> stableIdSymbol s' y = stableIdSymbol s y))"
proof -
  let ?c = "idGenerators s page"
  have "\<exists>s'. run cls e page evs s = Inr s' \<and> registered s' page
      \<and> idGenerators s' page = ?c + int (card (set (collected evs) - {}))
      \<and> (\<forall>x \<in> {} \<union> set (collected evs).
            \<exists>n. stableIdSymbol s' x = Some n \<and> ?c \<le> n \<and> n < idGenerators s' page)
      \<and> inj_on (stableIdSymbol s') ({} \<union> set (collected evs))
      \<and> (\<forall>y. y \<notin> set (collected evs) - {} \<longrightarrow> stableIdSymbol s' y = stableIdSymbol s y)"
  proof (rule run_ids_inj [OF assms(1,2)])
    show "finite ({} :: item set)" by simp
    show "1 \<le> ?c" by (rule assms(4))
    show "?c \<le> ?c" by simp
    show "\<forall>x \<in> {}. \<exists>n. stableIdSymbol s x = Some n \<and> ?c \<le> n \<and> n < ?c" by simp
    show "inj_on (stableIdSymbol s) {}" by simp
    show "\<forall>x \<in> set (collected evs) - {}. stableIdSymbol s x = None" using assms(3) by simp
    show "?c + int (card (set (collected evs) - {})) \<le> MAX_SAFE_INTEGER" using assms(5) by simp
  qed
  then obtain s' where r: "run cls e page evs s = Inr s'"
    and c: "idGenerators s' page = ?c + int (card (set (collected evs)))"
    and ids: "\<forall>x \<in> set (collected evs).
            \<exists>n. stableIdSymbol s' x = Some n \<and> ?c \<le> n \<and> n < idGenerators s' page"
    and inj: "inj_on (stableIdSymbol s') (set (collected evs))"
    and others: "\<forall>y. y \<notin> set (collected evs) \<longrightarrow> stableIdSymbol s' y = stableIdSymbol s y"
    by auto
  have "idGenerators (initializePage cls page t) page = 1"
    by (simp add: initializePage_fields createIdGenerator_def)
  with r inj ids others show ?thesis unfolding c by blast
qed

text \<open>
  Witness for C7: on a freshly registered page of a NetworkCollector, request 10 is
  collected, the page navigates, request 20 is collected and request 10 is collected again;
  both requests have an id and the two ids differ.
\<close>

theorem C7_ids_unique_within_page_witness:
  "\<exists>s'. run NetworkCollector requests_env 0 [Collect 10, Navigate, Collect 20, Collect 10]
           (initializePage NetworkCollector 0 new_collector) = Inr s'
        \<and> stableIdSymbol s' 10 \<noteq> None \<and> stableIdSymbol s' 20 \<noteq> None
        \<and> stableIdSymbol s' 10 \<noteq> stableIdSymbol s' 20"
proof -
  let ?s = "initializePage NetworkCollector 0 new_collector"
  let ?evs = "[Collect 10, Navigate, Collect 20, Collect 10]"
  have 1: "registered ?s 0" by (simp add: registered_def initializePage_fields)
  have 2: "\<forall>ev \<in> set ?evs. page_event ev" by simp
  have 3: "\<forall>x \<in> set (collected ?evs). stableIdSymbol ?s x = None"
    by (simp add: initializePage_fields new_collector_def)
  have g: "idGenerators ?s 0 = 1" by (simp add: initializePage_fields createIdGenerator_def)
  have 4: "1 \<le> idGenerators ?s 0" by (simp add: g)
  have "set (collected ?evs) = {10, 20}" by auto
  then have two: "card (set (collected ?evs)) = 2" by simp
  have 5: "idGenerators ?s 0 + int (card (set (collected ?evs))) \<le> MAX_SAFE_INTEGER"
    unfolding two g by (simp add: MAX_SAFE_INTEGER_def)
  from C7_ids_unique_within_page [OF 1 2 3 4 5, of NetworkCollector _ requests_env]
  obtain s' where r: "run NetworkCollector requests_env 0 ?evs ?s = Inr s'"
    and inj: "inj_on (stableIdSymbol s') (set (collected ?evs))"
    and ids: "\<forall>x \<in> set (collected ?evs). \<exists>n. stableIdSymbol s' x = Some n \<and> idGenerators ?s 0 \<le> n
                  \<and> n < idGenerators ?s 0 + int (card (set (collected ?evs)))"
    by blast
  have "stableIdSymbol s' 10 \<noteq> None" and "stableIdSymbol s' 20 \<noteq> None"
    using ids by auto
  moreover have "stableIdSymbol s' 10 \<noteq> stableIdSymbol s' 20"
    using inj by (simp add: inj_on_def)
  ultimately show ?thesis using r by blast
qed

text \<open>
  Counterexample to C7 as stated: one collector with the pages 0 and 1; item 10 collected
  on page 0 and item 20 collected on page 1 both receive the id 1.
\<close>

theorem C7_same_id_on_two_pages:
  "(case collector 0 10 (addPage PageCollector 1 (addPage PageCollector 0 new_collector)) of
      Inl thrown \<Rightarrow> None
    | Inr s \<Rightarrow>
        (case collector 1 20 s of
           Inl thrown \<Rightarrow> None
         | Inr s' \<Rightarrow> Some (getIdForResource s' 10, getIdForResource s' 20)))
   = Some (1, 1)"
  by (simp add: addPage_def initializePage_def subscribeForIssues_def new_collector_def
      collector_def falsy_def idGenerator_def createIdGenerator_def MAX_SAFE_INTEGER_def
      getIdForResource_def Let_def)

subsection \<open>C8: queries on a page that is not registered\<close>

text \<open>
  Claim C8: for a page that is not in \<open>storage\<close>, and so for any page after
  \<^verbatim>\<open>#cleanupPageDestroyed\<close>, \<^verbatim>\<open>getData\<close> returns the empty array whatever the flag and
  \<^verbatim>\<open>getById\<close> throws "No requests found for selected page"; for a registered page none of
  whose items carries the requested id, \<^verbatim>\<open>getById\<close> throws "Request not found for
  selected page". Both errors are NotFound errors.
\<close>

theorem C8_unregistered_queries:
  "(storage s page = None \<longrightarrow>
      getData s page includePreservedData = Some []
      \<and> getById s page stableId = Inl (Error ''No requests found for selected page''))
   \<and> getData (cleanupPageDestroyed page s) page includePreservedData = Some []
   \<and> getById (cleanupPageDestroyed page s) page stableId
       = Inl (Error ''No requests found for selected page'')
   \<and> (storage s page = Some navigations
        \<and> (\<forall>x \<in> set (concat navigations). stableIdSymbol s x \<noteq> Some stableId) \<longrightarrow>
      getById s page stableId = Inl (Error ''Request not found for selected page''))
   \<and> NotFound (Error ''No requests found for selected page'')
   \<and> NotFound (Error ''Request not found for selected page'')"
proof (intro conjI impI)
  assume "storage s page = None"
  then show "getData s page includePreservedData = Some []"
    and "getById s page stableId = Inl (Error ''No requests found for selected page'')"
    by (simp_all add: getData_def getById_def)
next
  show "getData (cleanupPageDestroyed page s) page includePreservedData = Some []"
    by (simp add: getData_def cleanupPageDestroyed_def)
  show "getById (cleanupPageDestroyed page s) page stableId
       = Inl (Error ''No requests found for selected page'')"
    by (simp add: getById_def cleanupPageDestroyed_def)
next
  assume a: "storage s page = Some navigations
        \<and> (\<forall>x \<in> set (concat navigations). stableIdSymbol s x \<noteq> Some stableId)"
  then have "find_navigations (\<lambda>x. stableIdSymbol s x = Some stableId) navigations = None"
    by (intro find_navigations_none) blast
  with a show "getById s page stableId = Inl (Error ''Request not found for selected page'')"
    by (simp add: getById_def find_item_def)
next
  show "NotFound (Error ''No requests found for selected page'')"
    and "NotFound (Error ''Request not found for selected page'')"
    by (simp_all add: NotFound_def)
qed

text \<open>
  Witness for C8: a new collector knows no page 0; a page registered and then torn down
  is unknown again; a page holding the items 5 and 6, with ids 2 and 1, has no item with
  id 3.
\<close>

theorem C8_unregistered_queries_witness:
  "getData new_collector 0 True = Some []
   \<and> getById new_collector 0 1 = Inl (Error ''No requests found for selected page'')
   \<and> getData (cleanupPageDestroyed 0 (initializePage PageCollector 0 new_collector)) 0 False = Some []
   \<and> getById
        (new_collector\<lparr>storage := [0 \<mapsto> [[5], [6]]], stableIdSymbol := [5 \<mapsto> 2, 6 \<mapsto> 1]\<rparr>) 0 3
       = Inl (Error ''Request not found for selected page'')"
proof -
  let ?t = "new_collector\<lparr>storage := [0 \<mapsto> [[5], [6]]], stableIdSymbol := [5 \<mapsto> 2, 6 \<mapsto> 1]\<rparr>"
  have 0: "storage new_collector 0 = None" by (simp add: new_collector_def)
  have 1: "storage ?t 0 = Some [[5], [6]]
        \<and> (\<forall>x \<in> set (concat [[5], [6]]). stableIdSymbol ?t x \<noteq> Some 3)"
    by simp
  from C8_unregistered_queries [of new_collector 0 True 1] 0
  have a: "getData new_collector 0 True = Some []
      \<and> getById new_collector 0 1 = Inl (Error ''No requests found for selected page'')"
    by blast
  from C8_unregistered_queries [of "initializePage PageCollector 0 new_collector" 0 False]
  have b: "getData (cleanupPageDestroyed 0 (initializePage PageCollector 0 new_collector)) 0 False
           = Some []"
    by blast
  from C8_unregistered_queries [of ?t 0 _ 3 "[[5], [6]]"] 1
  have c: "getById ?t 0 3 = Inl (Error ''Request not found for selected page'')"
    by blast
  from a b c show ?thesis by blast
qed

subsection \<open>C9: raw issues with a primary key already seen\<close>

text \<open>
  Claim C9: on a page that has its set of seen keys, a raw issue whose primary key is in
  the set is discarded: the handler returns with the whole state as it was, so nothing is
  dispatched to the manager and no id is assigned. Two raw issues with the same primary
  key, not seen before, end with the key in the set and with exactly one more issue
  dispatched to the manager, the first of the two. Over any sequence of raw issues the
  issues dispatched have pairwise distinct primary keys, one for each key of the sequence
  that was not seen before. All this holds whatever the aggregator and the page's
  \<^verbatim>\<open>'issue'\<close> listeners make of a dispatch (any \<open>issueListeners\<close>).
\<close>

theorem C9_duplicate_issue_discarded:
  "(seenIssueKeys s page = Some seenKeys \<and> primaryKey iss \<in> seenKeys \<longrightarrow>
      issueAdded e page (Some iss) s = Inr s)
   \<and> (seenIssueKeys s page = Some seenKeys \<and> mockIssuesManagers s page = Some dispatched
        \<and> storage s page \<noteq> Some []
        \<and> primaryKey a \<notin> seenKeys \<and> primaryKey b = primaryKey a \<longrightarrow>
      (\<exists>s'. run PageCollector e page [Issue (Some a), Issue (Some b)] s = Inr s'
           \<and> seenIssueKeys s' page = Some (insert (primaryKey a) seenKeys)
           \<and> mockIssuesManagers s' page = Some (dispatched @ [a])))
   \<and> (seenIssueKeys s page = Some seenKeys \<and> mockIssuesManagers s page = Some dispatched
        \<and> storage s page \<noteq> Some [] \<longrightarrow>
      (\<exists>s' fwd. run PageCollector e page (map (\<lambda>i. Issue (Some i)) isss) s = Inr s'
           \<and> mockIssuesManagers s' page = Some (dispatched @ fwd)
           \<and> seenIssueKeys s' page = Some (seenKeys \<union> primaryKey ` set isss)
           \<and> distinct (map primaryKey fwd)
           \<and> set (map primaryKey fwd) = primaryKey ` set isss - seenKeys))"
proof (intro conjI impI)
  assume "seenIssueKeys s page = Some seenKeys \<and> primaryKey iss \<in> seenKeys"
  then show "issueAdded e page (Some iss) s = Inr s"
    by (simp add: issueAdded_seen)
next
  assume h: "seenIssueKeys s page = Some seenKeys \<and> mockIssuesManagers s page = Some dispatched
        \<and> storage s page \<noteq> Some []
        \<and> primaryKey a \<notin> seenKeys \<and> primaryKey b = primaryKey a"
  then have k: "seenIssueKeys s page = Some seenKeys"
    and m: "mockIssuesManagers s page = Some dispatched"
    and st: "storage s page \<noteq> Some []"
    and new: "primaryKey a \<notin> seenKeys"
    by simp_all
  obtain s1 where s1: "issueAdded e page (Some a) s = Inr s1"
    "seenIssueKeys s1 page = Some (insert (primaryKey a) seenKeys)"
    "mockIssuesManagers s1 page = Some (dispatched @ [a])"
    using issueAdded_new [OF k new m st] by blast
  have "primaryKey b \<in> insert (primaryKey a) seenKeys" using h by simp
  with s1(2) have second: "issueAdded e page (Some b) s1 = Inr s1"
    by (rule issueAdded_seen)
  have "run PageCollector e page [Issue (Some a), Issue (Some b)] s = Inr s1"
    by (simp add: handle_event_def s1(1) second)
  with s1(2,3)
  show "\<exists>s'. run PageCollector e page [Issue (Some a), Issue (Some b)] s = Inr s'
           \<and> seenIssueKeys s' page = Some (insert (primaryKey a) seenKeys)
           \<and> mockIssuesManagers s' page = Some (dispatched @ [a])"
    by blast
next
  assume h: "seenIssueKeys s page = Some seenKeys \<and> mockIssuesManagers s page = Some dispatched
        \<and> storage s page \<noteq> Some []"
  then have k: "seenIssueKeys s page = Some seenKeys"
    and m: "mockIssuesManagers s page = Some dispatched"
    and st: "storage s page \<noteq> Some []"
    by simp_all
  from issues_run [OF k m st, of e isss]
  show "\<exists>s' fwd. run PageCollector e page (map (\<lambda>i. Issue (Some i)) isss) s = Inr s'
           \<and> mockIssuesManagers s' page = Some (dispatched @ fwd)
           \<and> seenIssueKeys s' page = Some (seenKeys \<union> primaryKey ` set isss)
           \<and> distinct (map primaryKey fwd)
           \<and> set (map primaryKey fwd) = primaryKey ` set isss - seenKeys"
    by blast
qed

text \<open>
  Witness for C9 in \<open>requests_env\<close>, where every dispatch makes the page collect the
  aggregated issue 100: on a freshly registered page of a PageCollector, two raw issues
  with the key \<open>k\<close> leave \<open>k\<close> in the set and the first issue alone with the manager,
  and item 100 in the current window; with \<open>k\<close> already seen, a raw issue with that key
  changes nothing.
\<close>

theorem C9_duplicate_issue_discarded_witness:
  "(\<exists>s'. run PageCollector requests_env 0
            [Issue (Some \<lparr>primaryKey = ''k'', details = ''first''\<rparr>),
             Issue (Some \<lparr>primaryKey = ''k'', details = ''again''\<rparr>)]
            (initializePage PageCollector 0 new_collector) = Inr s'
        \<and> seenIssueKeys s' 0 = Some {''k''}
        \<and> mockIssuesManagers s' 0 = Some [\<lparr>primaryKey = ''k'', details = ''first''\<rparr>]
        \<and> storage s' 0 = Some [[100]])
   \<and> issueAdded requests_env 0 (Some \<lparr>primaryKey = ''k'', details = ''again''\<rparr>)
        (new_collector\<lparr>seenIssueKeys := [0 \<mapsto> {''k''}]\<rparr>)
      = Inr (new_collector\<lparr>seenIssueKeys := [0 \<mapsto> {''k''}]\<rparr>)"
proof -
  let ?init = "initializePage PageCollector 0 new_collector"
  let ?a = "\<lparr>primaryKey = ''k'', details = ''first''\<rparr>"
  let ?b = "\<lparr>primaryKey = ''k'', details = ''again''\<rparr>"
  let ?t = "new_collector\<lparr>seenIssueKeys := [0 \<mapsto> {''k''}]\<rparr>"
  have sk: "seenIssueKeys ?init = [0 \<mapsto> {}]" and mm: "mockIssuesManagers ?init = [0 \<mapsto> []]"
    by (simp_all add: initializePage_def subscribeForIssues_def new_collector_def Let_def)
  have 1: "seenIssueKeys ?init 0 = Some {} \<and> mockIssuesManagers ?init 0 = Some []
        \<and> storage ?init 0 \<noteq> Some []
        \<and> primaryKey ?a \<notin> {} \<and> primaryKey ?b = primaryKey ?a"
    by (simp add: sk mm initializePage_fields)
  have 2: "seenIssueKeys ?t 0 = Some {''k''} \<and> primaryKey ?b \<in> {''k''}"
    by simp
  from C9_duplicate_issue_discarded [of ?init 0 "{}" _ requests_env "[]" ?a ?b] 1
  obtain s' where r: "run PageCollector requests_env 0 [Issue (Some ?a), Issue (Some ?b)] ?init = Inr s'"
    and k: "seenIssueKeys s' 0 = Some (insert (primaryKey ?a) {})"
    and m: "mockIssuesManagers s' 0 = Some ([] @ [?a])"
    by blast
  have "case run PageCollector requests_env 0 [Issue (Some ?a), Issue (Some ?b)] ?init of
          Inl thrown \<Rightarrow> False | Inr s \<Rightarrow> storage s 0 = Some [[100]]"
    by (simp add: handle_event_def issueAdded_def requests_env_def collector_def falsy_def
        idGenerator_def createIdGenerator_def MAX_SAFE_INTEGER_def initializePage_def
        subscribeForIssues_def new_collector_def Let_def)
  then have st: "storage s' 0 = Some [[100]]" unfolding r by simp
  from C9_duplicate_issue_discarded [of ?t 0 "{''k''}" ?b requests_env] 2
  have r2: "issueAdded requests_env 0 (Some ?b) ?t = Inr ?t"
    by blast
  from r k m st r2 show ?thesis by auto
qed

subsection \<open>C10: the same item in several windows\<close>

text \<open>
  Claim C10: the collector looks for the item in the current window only. When an item lies
  in one of the three windows behind the current one and not in the current one, collecting
  it again appends it to the current window, so that the page holds it in two windows and
  \<^verbatim>\<open>getData(page, true)\<close> returns it at least twice.
\<close>

theorem C10_reingest_after_rotation_duplicates:
  "storage s page = Some (w # older) \<and> v \<notin> set w \<and> v \<in> set (concat (take 3 older)) \<longrightarrow>
     (\<exists>s' data. collector page v s = Inr s'
        \<and> storage s' page = Some ((w @ [v]) # older)
        \<and> getData s' page True = Some data
        \<and> 2 \<le> count_list data v)"
proof
  assume h: "storage s page = Some (w # older) \<and> v \<notin> set w \<and> v \<in> set (concat (take 3 older))"
  then have st: "storage s page = Some (w # older)" by simp
  define s' where "s' = (if falsy (stableIdSymbol s v)
           then s\<lparr>stableIdSymbol := (stableIdSymbol s)(v \<mapsto> fst (idGenerator (idGenerators s page))),
                  idGenerators := (idGenerators s)(page := snd (idGenerator (idGenerators s page)))\<rparr>
           else s)
          \<lparr>storage := (storage s)(page \<mapsto> (w @ [v]) # older)\<rparr>"
  have c: "collector page v s = Inr s'"
    using h by (simp add: collector_registered [OF st] s'_def)
  have st': "storage s' page = Some ((w @ [v]) # older)"
    by (simp add: s'_def)
  have d: "getData s' page True = Some (concat (rev (take 4 ((w @ [v]) # older))))"
    by (rule getData_history [OF st'])
  have t: "take 4 ((w @ [v]) # older) = (w @ [v]) # take 3 older"
    by simp
  have cat: "concat (rev (take 4 ((w @ [v]) # older))) = concat (rev (take 3 older)) @ w @ [v]"
    unfolding t by simp
  have "v \<in> set (concat (rev (take 3 older)))" using h by simp
  then have "count_list (concat (rev (take 3 older))) v \<noteq> 0"
    by (simp add: count_list_0_iff)
  then have "2 \<le> count_list (concat (rev (take 4 ((w @ [v]) # older)))) v"
    unfolding cat by simp
  with c st' d show "\<exists>s' data. collector page v s = Inr s'
        \<and> storage s' page = Some ((w @ [v]) # older)
        \<and> getData s' page True = Some data
        \<and> 2 \<le> count_list data v"
    by blast
qed

text \<open>
  Witness for C10: item 5 is collected on a fresh page, a navigation moves it to the window
  at index 1, and it is collected again: both windows hold it.
\<close>

theorem C10_reingest_after_rotation_duplicates_witness:
  "run PageCollector requests_env 0 [Collect 5, Navigate] (initializePage PageCollector 0 new_collector)
     = Inr ((initializePage PageCollector 0 new_collector)
              \<lparr>stableIdSymbol := [5 \<mapsto> 1],
               idGenerators := (\<lambda>p. createIdGenerator)(0 := 2),
               storage := [0 \<mapsto> [[], [5]]]\<rparr>)
   \<and> (\<exists>s' data.
        collector 0 5 ((initializePage PageCollector 0 new_collector)
              \<lparr>stableIdSymbol := [5 \<mapsto> 1],
               idGenerators := (\<lambda>p. createIdGenerator)(0 := 2),
               storage := [0 \<mapsto> [[], [5]]]\<rparr>) = Inr s'
        \<and> storage s' 0 = Some [[5], [5]]
        \<and> getData s' 0 True = Some data
        \<and> 2 \<le> count_list data 5)"
proof -
  let ?init = "initializePage PageCollector 0 new_collector"
  let ?s = "?init\<lparr>stableIdSymbol := [5 \<mapsto> 1],
               idGenerators := (\<lambda>p. createIdGenerator)(0 := 2),
               storage := [0 \<mapsto> [[], [5]]]\<rparr>"
  have r: "run PageCollector requests_env 0 [Collect 5, Navigate] ?init = Inr ?s"
    by (simp add: handle_event_def this_splitAfterNavigation_def splitAfterNavigation_def
        maxNavigationSaved_def collector_def falsy_def idGenerator_def createIdGenerator_def
        MAX_SAFE_INTEGER_def initializePage_def subscribeForIssues_def new_collector_def
        Let_def)
  have h: "storage ?s 0 = Some ([] # [[5]]) \<and> 5 \<notin> set [] \<and> 5 \<in> set (concat (take 3 [[5]]))"
    by simp
  from C10_reingest_after_rotation_duplicates [of ?s 0 "[]" "[[5]]" 5] h
  have "\<exists>s' data. collector 0 5 ?s = Inr s'
        \<and> storage s' 0 = Some (([] @ [5]) # [[5]])
        \<and> getData s' 0 True = Some data
        \<and> 2 \<le> count_list data 5"
    by blast
  then have "\<exists>s' data. collector 0 5 ?s = Inr s'
        \<and> storage s' 0 = Some [[5], [5]]
        \<and> getData s' 0 True = Some data
        \<and> 2 \<le> count_list data 5"
    by simp
  with r show ?thesis by blast
qed


end
